theory Spec2Isabelle
  imports Main "HOL-Library.AList"
begin

section \<open>Calls, values and the wrapped function\<close>

text \<open>
  The caches of \<^verbatim>\<open>jax/_src/util.py\<close> are keyed on the arguments of a call. The
  type \<open>'a\<close> stands for the Python values that are passed as arguments. What the
  interpreter does with them is a parameter of the model:
  \<^item> \<open>is_fast x\<close>: the exact type of \<open>x\<close> is \<^verbatim>\<open>int\<close> or \<^verbatim>\<open>str\<close>
    (\<^verbatim>\<open>type(x) in {int, str}\<close>; a \<^verbatim>\<open>bool\<close> is not);
  \<^item> \<open>is_hashable x\<close>: \<^verbatim>\<open>hash(x)\<close> returns; otherwise it raises \<^verbatim>\<open>TypeError\<close>;
  \<^item> \<open>eq_class x\<close>: the class of \<open>x\<close> under \<^verbatim>\<open>==\<close> among the hashable values, so
    that two hashable values are \<^verbatim>\<open>==\<close> (and hash equal) exactly when their classes
    are equal: \<^verbatim>\<open>1\<close>, \<^verbatim>\<open>True\<close> and \<^verbatim>\<open>1.0\<close> have one class;
  \<^item> \<open>type_error\<close>: the \<^verbatim>\<open>TypeError\<close> the interpreter raises, as a value of the
    type \<open>'e\<close> of exceptions.
  Keyword arguments are a Python \<^verbatim>\<open>dict\<close>: an association list in the order in which
  the caller wrote them.
\<close>

record ('a, 'b, 'e) python =
  is_fast :: "'a \<Rightarrow> bool"
  is_hashable :: "'a \<Rightarrow> bool"
  eq_class :: "'a \<Rightarrow> 'b"
  type_error :: 'e

type_synonym 'a kwargs = "(string \<times> 'a) list"

text \<open>
  The wrapped function \<^verbatim>\<open>f\<close> is arbitrary Python code: it reads and writes an
  environment \<open>'w\<close> of its own and either returns a value \<open>'r\<close> or raises an
  exception \<open>'e\<close>. It does not call back into the cache that wraps it.
\<close>

type_synonym ('a, 'w, 'e, 'r) pyfun = "'w \<Rightarrow> 'a list \<Rightarrow> 'a kwargs \<Rightarrow> ('e + 'r) \<times> 'w"

text \<open>
  The world outside the cache: the environment of \<^verbatim>\<open>f\<close> and the list of the
  argument pairs \<^verbatim>\<open>f\<close> has been invoked with, oldest first. Nothing reads
  \<open>invoked\<close>; it records that an invocation took place.
\<close>

record ('a, 'w) world =
  env :: 'w
  invoked :: "('a list \<times> 'a kwargs) list"

definition invoke ::
  "('a, 'w, 'e, 'r) pyfun \<Rightarrow> 'a list \<Rightarrow> 'a kwargs \<Rightarrow> ('a, 'w) world \<Rightarrow> ('e + 'r) \<times> ('a, 'w) world" where
  "invoke f args kwargs w =
     (case f (env w) args kwargs of
        (r, e') \<Rightarrow> (r, \<lparr>env = e', invoked = invoked w @ [(args, kwargs)]\<rparr>))"

section \<open>The standard library's \<^verbatim>\<open>functools.lru_cache\<close>\<close>

text \<open>
  \<^verbatim>\<open>cache\<close> delegates all storage to \<^verbatim>\<open>functools.lru_cache(max_size)\<close>, so
  its behaviour is the behaviour of CPython's \<^verbatim>\<open>functools\<close>
  (\<^verbatim>\<open>_make_key\<close>, \<^verbatim>\<open>lru_cache\<close>, \<^verbatim>\<open>_lru_cache_wrapper\<close>), which is
  embedded here with \<^verbatim>\<open>typed=False\<close>, the only way \<^verbatim>\<open>util.py\<close> calls it.

  \<^verbatim>\<open>_make_key\<close>: the key is the tuple of positional arguments; when there are
  keyword arguments, the unique \<^verbatim>\<open>kwd_mark\<close> object and then every
  \<^verbatim>\<open>(name, value)\<close> item of \<^verbatim>\<open>kwds.items()\<close>, flattened, in the order of
  the dict. A key of length one whose element has exactly the type \<^verbatim>\<open>int\<close> or
  \<^verbatim>\<open>str\<close> is that element itself; any other key is the sequence, which is hashed
  when it is built, and hashing it hashes every element.

  Keys are compared with \<^verbatim>\<open>==\<close>: a key holds the classes of its values. Where a
  value cannot be hashed no key comes into being; \<open>No_hash\<close> marks the place of such
  a value in \<open>key_tuple\<close>.
\<close>

datatype 'b key_item = Val 'b | Kwd_mark | Kwd_name string | No_hash

datatype 'b key = Fast 'b | HashedSeq "'b key_item list"

definition key_item :: "('a, 'b, 'e) python \<Rightarrow> 'a \<Rightarrow> 'b key_item" where
  "key_item py x = (if is_hashable py x then Val (eq_class py x) else No_hash)"

fun kwd_items :: "('a, 'b, 'e) python \<Rightarrow> 'a kwargs \<Rightarrow> 'b key_item list" where
  "kwd_items py [] = []"
| "kwd_items py ((k, v) # kwds) = Kwd_name k # key_item py v # kwd_items py kwds"

definition key_tuple :: "('a, 'b, 'e) python \<Rightarrow> 'a list \<Rightarrow> 'a kwargs \<Rightarrow> 'b key_item list" where
  "key_tuple py args kwds =
     map (key_item py) args @ (if kwds \<noteq> [] then Kwd_mark # kwd_items py kwds else [])"

text \<open>\<^verbatim>\<open>len(key) == 1 and type(key[0]) in fasttypes\<close>\<close>

fun fast_path :: "('a, 'b, 'e) python \<Rightarrow> 'a list \<Rightarrow> 'a kwargs \<Rightarrow> bool" where
  "fast_path py [x] [] = is_fast py x"
| "fast_path py args kwds = False"

text \<open>The key of a call, and whether building it succeeds.\<close>

definition key_of :: "('a, 'b, 'e) python \<Rightarrow> 'a list \<Rightarrow> 'a kwargs \<Rightarrow> 'b key" where
  "key_of py args kwds =
     (if fast_path py args kwds then Fast (eq_class py (hd args))
      else HashedSeq (key_tuple py args kwds))"

definition hashes :: "('a, 'b, 'e) python \<Rightarrow> 'a list \<Rightarrow> 'a kwargs \<Rightarrow> bool" where
  "hashes py args kwds \<longleftrightarrow>
     fast_path py args kwds \<or> list_all (is_hashable py) (args @ map snd kwds)"

definition make_key :: "('a, 'b, 'e) python \<Rightarrow> 'a list \<Rightarrow> 'a kwargs \<Rightarrow> 'e + 'b key" where
  "make_key py args kwds =
     (if hashes py args kwds then Inr (key_of py args kwds) else Inl (type_error py))"

text \<open>
  The closure state of one \<^verbatim>\<open>_lru_cache_wrapper\<close>: the dict \<^verbatim>\<open>cache\<close> together
  with the recency order of the circular linked list (\<open>cache_dict\<close>, least recently used
  first), the counters, the \<^verbatim>\<open>full\<close> flag and \<^verbatim>\<open>maxsize\<close>
  (\<open>None\<close>: unbounded).
\<close>

record ('b, 'r) lru_state =
  cache_dict :: "('b key \<times> 'r) list"
  hits :: nat
  misses :: nat
  full :: bool
  maxsize :: "nat option"

datatype error = TypeError | OverflowError

text \<open>
  The value passed as \<^verbatim>\<open>max_size\<close>: an \<^verbatim>\<open>int\<close>, \<^verbatim>\<open>None\<close>, or a
  value that is none of an \<^verbatim>\<open>int\<close>, \<^verbatim>\<open>None\<close> or a callable (a string, a
  float). A callable is not among them: given one, \<^verbatim>\<open>functools.lru_cache\<close> does not
  return a decorator but a cache around that callable, and what \<^verbatim>\<open>wrap\<close> then
  builds is whatever the callable returns.
\<close>

datatype py_max_size = MaxInt int | MaxNone | MaxOther

text \<open>The closure of a new \<^verbatim>\<open>_lru_cache_wrapper\<close>: an empty dict, counters at zero.\<close>

definition lru_init :: "nat option \<Rightarrow> ('b, 'r) lru_state" where
  "lru_init m = \<lparr>cache_dict = [], hits = 0, misses = 0, full = False, maxsize = m\<rparr>"

text \<open>
  \<^verbatim>\<open>lru_cache(maxsize)\<close> applied to a function. A negative \<^verbatim>\<open>maxsize\<close> is
  treated as 0. The wrapper keeps \<^verbatim>\<open>maxsize\<close> in a machine integer
  (\<^verbatim>\<open>Py_ssize_t\<close>, 64 bits): an \<^verbatim>\<open>int\<close> from \<open>2 ^ 63\<close> on does not fit and
  raises \<^verbatim>\<open>OverflowError\<close>.
\<close>

definition lru_cache :: "py_max_size \<Rightarrow> error + ('b, 'r) lru_state" where
  "lru_cache max_size =
     (case max_size of
        MaxInt n \<Rightarrow>
          if 2 ^ 63 \<le> n then Inl OverflowError
          else Inr (lru_init (Some (if n < 0 then 0 else nat n)))
      | MaxNone \<Rightarrow> Inr (lru_init None)
      | MaxOther \<Rightarrow> Inl TypeError)"

text \<open>
  \<^verbatim>\<open>_lru_cache_wrapper\<close>'s three \<^verbatim>\<open>wrapper\<close> functions. With
  \<^verbatim>\<open>maxsize == 0\<close> no key is built. Otherwise the key is built first, and a
  \<^verbatim>\<open>TypeError\<close> of hashing leaves the function before anything is counted.
  \<^verbatim>\<open>misses\<close> is incremented before \<^verbatim>\<open>user_function\<close> is called; an
  exception of \<^verbatim>\<open>user_function\<close> leaves the function before anything is stored.
\<close>

definition lru_cache_wrapper ::
  "('a, 'b, 'e) python \<Rightarrow> ('a list \<Rightarrow> 'a kwargs \<Rightarrow> 'v \<Rightarrow> ('e + 'r) \<times> 'v) \<Rightarrow>
   'a list \<Rightarrow> 'a kwargs \<Rightarrow> ('b, 'r) lru_state \<Rightarrow> 'v \<Rightarrow> ('e + 'r) \<times> ('b, 'r) lru_state \<times> 'v" where
  "lru_cache_wrapper py user_function args kwds st w =
     (if maxsize st = Some 0 then
        (case user_function args kwds w of
           (result, w') \<Rightarrow> (result, st\<lparr>misses := misses st + 1\<rparr>, w'))
      else if maxsize st = None then
        (case make_key py args kwds of
           Inl e \<Rightarrow> (Inl e, st, w)
         | Inr key \<Rightarrow>
            (case map_of (cache_dict st) key of
               Some result \<Rightarrow> (Inr result, st\<lparr>hits := hits st + 1\<rparr>, w)
             | None \<Rightarrow>
                 (case user_function args kwds w of
                    (Inl e, w') \<Rightarrow> (Inl e, st\<lparr>misses := misses st + 1\<rparr>, w')
                  | (Inr result, w') \<Rightarrow>
                      (Inr result,
                       st\<lparr>misses := misses st + 1,
                          cache_dict := AList.update key result (cache_dict st)\<rparr>, w'))))
      else
        (case make_key py args kwds of
           Inl e \<Rightarrow> (Inl e, st, w)
         | Inr key \<Rightarrow>
            (case map_of (cache_dict st) key of
               Some result \<Rightarrow>
                 (Inr result,
                  st\<lparr>cache_dict := AList.delete key (cache_dict st) @ [(key, result)],
                     hits := hits st + 1\<rparr>, w)
             | None \<Rightarrow>
                 (case user_function args kwds w of
                    (Inl e, w') \<Rightarrow> (Inl e, st\<lparr>misses := misses st + 1\<rparr>, w')
                  | (Inr result, w') \<Rightarrow>
                      (Inr result,
                       (if key \<in> fst ` set (cache_dict st) then st\<lparr>misses := misses st + 1\<rparr>
                        else if full st then
                          st\<lparr>misses := misses st + 1,
                             cache_dict := tl (cache_dict st) @ [(key, result)]\<rparr>
                        else
                          st\<lparr>misses := misses st + 1,
                             cache_dict := cache_dict st @ [(key, result)],
                             full := (the (maxsize st) \<le> length (cache_dict st) + 1)\<rparr>), w')))))"

definition lru_cache_info :: "('b, 'r) lru_state \<Rightarrow> nat \<times> nat \<times> nat option \<times> nat" where
  "lru_cache_info st = (hits st, misses st, maxsize st, length (cache_dict st))"

definition lru_cache_clear :: "('b, 'r) lru_state \<Rightarrow> ('b, 'r) lru_state" where
  "lru_cache_clear st = st\<lparr>cache_dict := [], hits := 0, misses := 0, full := False\<rparr>"

section \<open>\<^verbatim>\<open>cache\<close> and \<^verbatim>\<open>memoize\<close>\<close>

text \<open>
  What \<^verbatim>\<open>config\<close> answers at the time of a call:
  \<^verbatim>\<open>config.check_tracer_leaks.value\<close> and \<^verbatim>\<open>config.trace_context()\<close>.
\<close>

record 'a config =
  check_tracer_leaks :: bool
  trace_context :: 'a

text \<open>
  The object \<^verbatim>\<open>wrap(f)\<close> returns: the function it wraps, the branch of
  \<^verbatim>\<open>cache\<close> that built it and the state of its \<^verbatim>\<open>lru_cache\<close>.
\<close>

record ('a, 'b, 'w, 'e, 'r) cache_obj =
  wrapped :: "('a, 'w, 'e, 'r) pyfun"
  trace_context_in_key :: bool
  lru :: "('b, 'r) lru_state"

text \<open>
  \<^verbatim>\<open>def cached(_, *args, **kwargs): return f(*args, **kwargs)\<close>. The first
  positional argument binds the parameter \<^verbatim>\<open>_\<close>; a keyword argument of that name
  is then a second value for it, and the call raises \<^verbatim>\<open>TypeError\<close> before the body
  runs. With no positional argument the keyword argument of that name binds the parameter,
  and without one the call raises \<^verbatim>\<open>TypeError\<close>; \<^verbatim>\<open>wrapper\<close> always passes
  the trace context in first place.
\<close>

definition cached ::
  "('a, 'b, 'e) python \<Rightarrow> ('a, 'w, 'e, 'r) pyfun \<Rightarrow> 'a list \<Rightarrow> 'a kwargs \<Rightarrow> ('a, 'w) world \<Rightarrow>
   ('e + 'r) \<times> ('a, 'w) world" where
  "cached py f args kwargs w =
     (case args of
        [] \<Rightarrow>
          if ''_'' \<in> fst ` set kwargs then invoke f [] (AList.delete ''_'' kwargs) w
          else (Inl (type_error py), w)
      | x # rest \<Rightarrow>
          if ''_'' \<in> fst ` set kwargs then (Inl (type_error py), w)
          else invoke f rest kwargs w)"

definition wrapper ::
  "('a, 'b, 'e) python \<Rightarrow> 'a config \<Rightarrow> ('a, 'b, 'w, 'e, 'r) cache_obj \<Rightarrow> 'a list \<Rightarrow> 'a kwargs \<Rightarrow>
   ('a, 'w) world \<Rightarrow> ('e + 'r) \<times> ('a, 'b, 'w, 'e, 'r) cache_obj \<times> ('a, 'w) world" where
  "wrapper py cfg c args kwargs w =
     (if trace_context_in_key c then
        (if check_tracer_leaks cfg then
           (case invoke (wrapped c) args kwargs w of (r, w') \<Rightarrow> (r, c, w'))
         else
           (case lru_cache_wrapper py (cached py (wrapped c))
                   (trace_context cfg # args) kwargs (lru c) w of
              (r, st, w') \<Rightarrow> (r, c\<lparr>lru := st\<rparr>, w')))
      else
        (case lru_cache_wrapper py (invoke (wrapped c)) args kwargs (lru c) w of
           (r, st, w') \<Rightarrow> (r, c\<lparr>lru := st\<rparr>, w')))"

definition cache_clear :: "('a, 'b, 'w, 'e, 'r) cache_obj \<Rightarrow> ('a, 'b, 'w, 'e, 'r) cache_obj" where
  "cache_clear c = c\<lparr>lru := lru_cache_clear (lru c)\<rparr>"

definition cache_info :: "('a, 'b, 'w, 'e, 'r) cache_obj \<Rightarrow> nat \<times> nat \<times> nat option \<times> nat" where
  "cache_info c = lru_cache_info (lru c)"

text \<open>
  The object \<^verbatim>\<open>wrap(f)\<close> builds, in either branch of \<^verbatim>\<open>cache\<close>:
  \<^verbatim>\<open>functools.lru_cache(max_size)\<close> is applied when \<^verbatim>\<open>wrap\<close> runs, so its
  exceptions are raised there.
\<close>

definition wrap ::
  "py_max_size \<Rightarrow> bool \<Rightarrow> ('a, 'w, 'e, 'r) pyfun \<Rightarrow> error + ('a, 'b, 'w, 'e, 'r) cache_obj" where
  "wrap max_size in_key f =
     (case lru_cache max_size of
        Inl e \<Rightarrow> Inl e
      | Inr st \<Rightarrow> Inr \<lparr>wrapped = f, trace_context_in_key = in_key, lru = st\<rparr>)"

text \<open>
  A call as the caller makes it: what \<^verbatim>\<open>config\<close> answers at that moment, the
  positional and the keyword arguments. \<open>run_calls\<close> makes the calls one after the other;
  an exception of one call is the caller's to handle and the next call is made all the same.
\<close>

type_synonym 'a call = "'a config \<times> 'a list \<times> 'a kwargs"

fun run_calls ::
  "('a, 'b, 'e) python \<Rightarrow> 'a call list \<Rightarrow> ('a, 'b, 'w, 'e, 'r) cache_obj \<Rightarrow> ('a, 'w) world \<Rightarrow>
   ('a, 'b, 'w, 'e, 'r) cache_obj \<times> ('a, 'w) world" where
  "run_calls py [] c w = (c, w)"
| "run_calls py ((cfg, args, kwargs) # cs) c w =
     (case wrapper py cfg c args kwargs w of (r, c', w') \<Rightarrow> run_calls py cs c' w')"

text \<open>
  The key under which \<^verbatim>\<open>wrapper\<close> has the \<^verbatim>\<open>lru_cache\<close> look a call up:
  the key of the arguments it passes on, with the trace context in front when
  \<^verbatim>\<open>trace_context_in_key\<close> is set.
\<close>

definition cache_key ::
  "('a, 'b, 'e) python \<Rightarrow> ('a, 'b, 'w, 'e, 'r) cache_obj \<Rightarrow> 'a call \<Rightarrow> 'b key" where
  "cache_key py c call =
     (case call of (cfg, args, kwargs) \<Rightarrow>
        if trace_context_in_key c then key_of py (trace_context cfg # args) kwargs
        else key_of py args kwargs)"

text \<open>
  Whether the key of a call can be built: hashing it succeeds. And whether the call passes
  a keyword argument named \<^verbatim>\<open>_\<close> on to \<^verbatim>\<open>cached\<close>, whose first parameter
  has that name.
\<close>

definition key_hashes ::
  "('a, 'b, 'e) python \<Rightarrow> ('a, 'b, 'w, 'e, 'r) cache_obj \<Rightarrow> 'a call \<Rightarrow> bool" where
  "key_hashes py c call =
     (case call of (cfg, args, kwargs) \<Rightarrow>
        if trace_context_in_key c then hashes py (trace_context cfg # args) kwargs
        else hashes py args kwargs)"

definition underscore_clash :: "('a, 'b, 'w, 'e, 'r) cache_obj \<Rightarrow> 'a kwargs \<Rightarrow> bool" where
  "underscore_clash c kwargs \<longleftrightarrow> trace_context_in_key c \<and> ''_'' \<in> fst ` set kwargs"

text \<open>Every call of the sequence returns normally: none ends in an exception.\<close>

fun returns_normally ::
  "('a, 'b, 'e) python \<Rightarrow> 'a call list \<Rightarrow> ('a, 'b, 'w, 'e, 'r) cache_obj \<Rightarrow> ('a, 'w) world \<Rightarrow> bool" where
  "returns_normally py [] c w = True"
| "returns_normally py ((cfg, args, kwargs) # cs) c w =
     (case wrapper py cfg c args kwargs w of
        (Inl e, c', w') \<Rightarrow> False
      | (Inr v, c', w') \<Rightarrow> returns_normally py cs c' w')"

section \<open>The registry \<^verbatim>\<open>_caches\<close>\<close>

text \<open>
  Wrapper objects live in a heap, addressed by handles. \<^verbatim>\<open>_caches\<close> is a
  \<^verbatim>\<open>weakref.WeakKeyDictionary\<close>: it holds handles without keeping the objects
  alive, in insertion order. An object the garbage collector has reclaimed is no longer in
  the heap, and the callback of its weak reference has removed its entry.
\<close>

record ('a, 'b, 'w, 'e, 'r) jax_state =
  heap :: "nat \<Rightarrow> ('a, 'b, 'w, 'e, 'r) cache_obj option"
  caches :: "(nat \<times> string) list"
  next_handle :: nat

definition register_cache ::
  "nat \<Rightarrow> string \<Rightarrow> ('a, 'b, 'w, 'e, 'r) jax_state \<Rightarrow> ('a, 'b, 'w, 'e, 'r) jax_state" where
  "register_cache h for_what g = g\<lparr>caches := AList.update h for_what (caches g)\<rparr>"

text \<open>
  \<^verbatim>\<open>cache(max_size, trace_context_in_key)\<close> is \<^verbatim>\<open>wrap\<close>; applied to
  \<^verbatim>\<open>f\<close> it builds the wrapper object, registers it under \<^verbatim>\<open>str(f)\<close> and
  returns it.
\<close>

definition cache ::
  "py_max_size \<Rightarrow> bool \<Rightarrow> ('a, 'w, 'e, 'r) pyfun \<Rightarrow> string \<Rightarrow> ('a, 'b, 'w, 'e, 'r) jax_state \<Rightarrow>
   error + nat \<times> ('a, 'b, 'w, 'e, 'r) jax_state" where
  "cache max_size in_key f str_f g =
     (case wrap max_size in_key f of
        Inl e \<Rightarrow> Inl e
      | Inr c \<Rightarrow>
          (let h = next_handle g in
           Inr (h, register_cache h str_f
                     (g\<lparr>heap := (heap g)(h \<mapsto> c), next_handle := h + 1\<rparr>))))"

text \<open>\<^verbatim>\<open>memoize = cache(max_size=None)\<close>: \<^verbatim>\<open>trace_context_in_key\<close> keeps its default.\<close>

definition memoize ::
  "('a, 'w, 'e, 'r) pyfun \<Rightarrow> string \<Rightarrow> ('a, 'b, 'w, 'e, 'r) jax_state \<Rightarrow>
   error + nat \<times> ('a, 'b, 'w, 'e, 'r) jax_state" where
  "memoize = cache MaxNone True"

text \<open>The garbage collector reclaims the object behind a handle.\<close>

definition collect :: "nat \<Rightarrow> ('a, 'b, 'w, 'e, 'r) jax_state \<Rightarrow> ('a, 'b, 'w, 'e, 'r) jax_state" where
  "collect h g = g\<lparr>heap := (heap g)(h := None), caches := AList.delete h (caches g)\<rparr>"

text \<open>
  \<^verbatim>\<open>WeakKeyDictionary.keys()\<close> dereferences every weak reference it holds and
  yields the objects that are still alive.
\<close>

definition caches_keys :: "('a, 'b, 'w, 'e, 'r) jax_state \<Rightarrow> nat list" where
  "caches_keys g = filter (\<lambda>h. heap g h \<noteq> None) (map fst (caches g))"

datatype dead = ReferenceError

text \<open>\<^verbatim>\<open>cache.cache_clear()\<close> on the object behind a handle; there is none behind a dead one.\<close>

definition cache_clear_at ::
  "nat \<Rightarrow> ('a, 'b, 'w, 'e, 'r) jax_state \<Rightarrow> dead + ('a, 'b, 'w, 'e, 'r) jax_state" where
  "cache_clear_at h g =
     (case heap g h of
        None \<Rightarrow> Inl ReferenceError
      | Some c \<Rightarrow> Inr (g\<lparr>heap := (heap g)(h \<mapsto> cache_clear c)\<rparr>))"

fun clear_each ::
  "nat list \<Rightarrow> ('a, 'b, 'w, 'e, 'r) jax_state \<Rightarrow> dead + ('a, 'b, 'w, 'e, 'r) jax_state" where
  "clear_each [] g = Inr g"
| "clear_each (h # hs) g =
     (case cache_clear_at h g of Inl e \<Rightarrow> Inl e | Inr g' \<Rightarrow> clear_each hs g')"

definition clear_all_caches ::
  "('a, 'b, 'w, 'e, 'r) jax_state \<Rightarrow> dead + ('a, 'b, 'w, 'e, 'r) jax_state" where
  "clear_all_caches g = clear_each (caches_keys g) g"

section \<open>\<^verbatim>\<open>HashableFunction\<close> and \<^verbatim>\<open>HashableWrapper\<close>\<close>

text \<open>
  A function object: the text of its definition and its \<^verbatim>\<open>__code__\<close>, the code
  object the compiler made of it. Code objects are compared with \<^verbatim>\<open>==\<close>, by
  value; two definitions with different text may compile to equal code objects.
\<close>

record 'c py_function =
  source :: string
  code :: 'c

text \<open>
  A Python object seen from \<^verbatim>\<open>HashableFunction.__eq__\<close>: an instance of exactly
  \<^verbatim>\<open>HashableFunction\<close>, with its fields \<^verbatim>\<open>f\<close> and \<^verbatim>\<open>closure\<close>, or an
  object of another type. Closures are compared with \<^verbatim>\<open>==\<close>, which is HOL
  equality on \<open>'cl\<close>.
\<close>

datatype ('c, 'cl, 'o) py_object = HashableFunction "'c py_function" 'cl | OtherObject 'o

fun HashableFunction_eq ::
  "'c py_function \<times> 'cl \<Rightarrow> ('c, 'cl, 'o) py_object \<Rightarrow> bool" where
  "HashableFunction_eq (self_f, self_closure) (HashableFunction other_f other_closure) =
     (code self_f = code other_f \<and> self_closure = other_closure)"
| "HashableFunction_eq (self_f, self_closure) (OtherObject other) = False"

text \<open>
  \<^verbatim>\<open>hash\<close> of a tuple of two: it is computed from the hashes of the two elements
  (\<open>tuple_hash\<close>) and raises when one of them is unhashable. A code object is hashable.
\<close>

definition hash_pair ::
  "('c \<Rightarrow> int) \<Rightarrow> ('cl \<Rightarrow> int option) \<Rightarrow> (int list \<Rightarrow> int) \<Rightarrow> 'c \<times> 'cl \<Rightarrow> error + int" where
  "hash_pair hash_code hash_closure tuple_hash p =
     (case hash_closure (snd p) of
        None \<Rightarrow> Inl TypeError
      | Some h \<Rightarrow> Inr (tuple_hash [hash_code (fst p), h]))"

text \<open>\<^verbatim>\<open>hash((self.f.__code__, self.closure))\<close>\<close>

definition HashableFunction_hash ::
  "('c \<Rightarrow> int) \<Rightarrow> ('cl \<Rightarrow> int option) \<Rightarrow> (int list \<Rightarrow> int) \<Rightarrow>
   'c py_function \<times> 'cl \<Rightarrow> error + int" where
  "HashableFunction_hash hash_code hash_closure tuple_hash self =
     (case self of (self_f, self_closure) \<Rightarrow>
        hash_pair hash_code hash_closure tuple_hash (code self_f, self_closure))"

text \<open>
  A Python object with its identity (\<^verbatim>\<open>id\<close>) and its value (what \<^verbatim>\<open>==\<close> and
  \<^verbatim>\<open>hash\<close> look at). \<open>py_hash\<close> is \<^verbatim>\<open>hash\<close>: \<open>None\<close> when it raises.
\<close>

record 'v py_ref =
  ident :: nat
  val :: 'v

record 'v HashableWrapper =
  self_x :: "'v py_ref"
  self_hash :: "int option"

datatype ('v, 'o) wrapper_or_other = IsWrapper "'v HashableWrapper" | NotWrapper 'o

definition HashableWrapper_init :: "('v \<Rightarrow> int option) \<Rightarrow> 'v py_ref \<Rightarrow> 'v HashableWrapper" where
  "HashableWrapper_init py_hash x = \<lparr>self_x = x, self_hash = py_hash (val x)\<rparr>"

definition HashableWrapper_hash :: "'v HashableWrapper \<Rightarrow> int" where
  "HashableWrapper_hash self =
     (case self_hash self of Some h \<Rightarrow> h | None \<Rightarrow> int (ident (self_x self)))"

fun HashableWrapper_eq :: "'v HashableWrapper \<Rightarrow> ('v, 'o) wrapper_or_other \<Rightarrow> bool" where
  "HashableWrapper_eq self (NotWrapper other) = False"
| "HashableWrapper_eq self (IsWrapper other) =
     (if self_hash self \<noteq> None then val (self_x self) = val (self_x other)
      else ident (self_x self) = ident (self_x other))"

section \<open>Values for concrete runs\<close>

datatype py_value =
  PyInt int | PyBool bool | PyStr string | PyTuple "py_value list" | PyList "py_value list"

fun fasttypes :: "py_value \<Rightarrow> bool" where
  "fasttypes (PyInt i) = True"
| "fasttypes (PyStr s) = True"
| "fasttypes v = False"

text \<open>
  A \<^verbatim>\<open>hash\<close> for these values: a list is unhashable, and so is a tuple that holds an
  unhashable value; \<open>None\<close> stands for the \<^verbatim>\<open>TypeError\<close>.
\<close>

fun hashable :: "py_value \<Rightarrow> bool" where
  "hashable (PyInt i) = True"
| "hashable (PyBool b) = True"
| "hashable (PyStr s) = True"
| "hashable (PyTuple vs) = list_all hashable vs"
| "hashable (PyList vs) = False"

text \<open>\<^verbatim>\<open>True == 1\<close> and \<^verbatim>\<open>False == 0\<close>: a \<^verbatim>\<open>bool\<close> has the class of its \<^verbatim>\<open>int\<close>.\<close>

fun canonical :: "py_value \<Rightarrow> py_value" where
  "canonical (PyInt i) = PyInt i"
| "canonical (PyBool b) = PyInt (if b then 1 else 0)"
| "canonical (PyStr s) = PyStr s"
| "canonical (PyTuple vs) = PyTuple (map canonical vs)"
| "canonical (PyList vs) = PyList (map canonical vs)"

definition hash_value :: "py_value \<Rightarrow> int option" where
  "hash_value v = (if hashable v then Some (int (size (canonical v))) else None)"

definition cpython :: "(py_value, py_value, string) python" where
  "cpython = \<lparr>is_fast = fasttypes, is_hashable = hashable, eq_class = canonical,
              type_error = ''TypeError''\<rparr>"

fun int_of :: "py_value \<Rightarrow> int" where
  "int_of (PyInt i) = i"
| "int_of v = 0"

text \<open>
  A function to wrap: it counts its invocations in its environment, raises on a negative
  first argument and returns the sum of its integer arguments otherwise.
\<close>

definition add_all :: "(py_value, nat, string, int) pyfun" where
  "add_all n args kwargs =
     (if args \<noteq> [] \<and> int_of (hd args) < 0 then (Inl ''ValueError'', n + 1)
      else (Inr (sum_list (map int_of args) + sum_list (map (int_of \<circ> snd) kwargs)), n + 1))"

definition world0 :: "(py_value, nat) world" where
  "world0 = \<lparr>env = 0, invoked = []\<rparr>"

definition cfg0 :: "py_value config" where
  "cfg0 = \<lparr>check_tracer_leaks = False, trace_context = PyTuple []\<rparr>"

definition cfg_leaks :: "py_value config" where
  "cfg_leaks = \<lparr>check_tracer_leaks = True, trace_context = PyTuple []\<rparr>"

text \<open>Three calls with pairwise distinct keys, and a call on which \<open>add_all\<close> raises.\<close>

definition call_A :: "py_value call" where
  "call_A = (cfg0, [PyInt 1], [])"

definition call_B :: "py_value call" where
  "call_B = (cfg0, [PyInt 2], [])"

definition call_C :: "py_value call" where
  "call_C = (cfg0, [PyInt 3], [])"

definition call_raising :: "py_value call" where
  "call_raising = (cfg0, [PyInt (- 1)], [])"

text \<open>A new cache of capacity 2 around \<open>add_all\<close>, with the trace context in its keys.\<close>

definition cache2 :: "(py_value, py_value, nat, string, int) cache_obj" where
  "cache2 = \<lparr>wrapped = add_all, trace_context_in_key = True, lru = lru_init (Some 2)\<rparr>"

definition jax0 :: "(py_value, py_value, nat, string, int) jax_state" where
  "jax0 = \<lparr>heap = (\<lambda>h. None), caches = [], next_handle = 0\<rparr>"

text \<open>
  A registry with two wrappers of \<open>add_all\<close>: the first has served the calls A and B,
  the second is new.
\<close>

definition jax2 :: "(py_value, py_value, nat, string, int) jax_state" where
  "jax2 = \<lparr>heap = (\<lambda>h. None)(0 \<mapsto> fst (run_calls cpython [call_A, call_B] cache2 world0),
                               1 \<mapsto> cache2),
           caches = [(0, ''add_all''), (1, ''add_all'')], next_handle = 2\<rparr>"

text \<open>
  Two function objects whose definitions differ in their text and whose code objects are
  equal: the compiler folds both bodies to the constant 2 (the code object here is the
  name, the first line and the constants).
\<close>

definition lambda_sum :: "(string \<times> nat \<times> int list) py_function" where
  "lambda_sum = \<lparr>source = ''lambda: 1 + 1'', code = (''<lambda>'', 1, [2])\<rparr>"

definition lambda_diff :: "(string \<times> nat \<times> int list) py_function" where
  "lambda_diff = \<lparr>source = ''lambda: 4 - 2'', code = (''<lambda>'', 1, [2])\<rparr>"

definition lambda_other :: "(string \<times> nat \<times> int list) py_function" where
  "lambda_other = \<lparr>source = ''lambda: 1 + 2'', code = (''<lambda>'', 1, [3])\<rparr>"

section \<open>An invariant of the \<^verbatim>\<open>lru_cache\<close> state\<close>

text \<open>
  While every key that is looked up comes from a finite set \<open>S\<close> that fits the capacity,
  the stored keys are distinct members of \<open>S\<close> and \<^verbatim>\<open>full\<close> is only set once
  \<^verbatim>\<open>maxsize\<close> entries are stored.
\<close>

definition lru_inv :: "'b key set \<Rightarrow> ('b, 'r) lru_state \<Rightarrow> bool" where
  "lru_inv S st \<longleftrightarrow>
     finite S \<and> distinct (map fst (cache_dict st)) \<and> fst ` set (cache_dict st) \<subseteq> S \<and>
     (case maxsize st of None \<Rightarrow> True
      | Some m \<Rightarrow> card S \<le> m \<and> (full st \<longrightarrow> m \<le> length (cache_dict st)))"

section \<open>Evaluating concrete runs\<close>

lemmas run_simps = wrap_def lru_cache_def lru_init_def wrapper_def lru_cache_wrapper_def
  make_key_def key_of_def hashes_def key_tuple_def key_item_def cpython_def
  cached_def invoke_def add_all_def cfg0_def cfg_leaks_def world0_def
  cache_info_def lru_cache_info_def cache_key_def key_hashes_def underscore_clash_def call_A_def call_B_def call_C_def
  call_raising_def cache2_def

section \<open>Keys\<close>

lemma key_item_not_mark [simp]: "key_item py x \<noteq> Kwd_mark" "Kwd_mark \<noteq> key_item py x"
  by (simp_all add: key_item_def)

lemma key_item_not_name [simp]: "key_item py x \<noteq> Kwd_name n" "Kwd_name n \<noteq> key_item py x"
  by (simp_all add: key_item_def)

lemma key_item_eq_iff:
  "key_item py x = key_item py y \<longleftrightarrow>
     is_hashable py x = is_hashable py y \<and> (is_hashable py x \<longrightarrow> eq_class py x = eq_class py y)"
  by (auto simp: key_item_def)

lemma key_item_No_hash:
  "key_item py x = No_hash \<longleftrightarrow> \<not> is_hashable py x"
  "No_hash = key_item py x \<longleftrightarrow> \<not> is_hashable py x"
  by (simp_all add: key_item_def)

lemma kwd_items_eq_iff:
  "kwd_items py k = kwd_items py k' \<longleftrightarrow>
     map fst k = map fst k' \<and> map (key_item py \<circ> snd) k = map (key_item py \<circ> snd) k'"
proof (induction k arbitrary: k')
  case Nil
  then show ?case by (cases k') auto
next
  case (Cons a k)
  show ?case
  proof (cases k')
    case Nil
    then show ?thesis by (cases a) simp
  next
    case (Cons b l)
    with Cons.IH [of l] show ?thesis by (cases a; cases b) auto
  qed
qed

lemma key_tuple_eq_iff:
  "key_tuple py a k = key_tuple py a' k' \<longleftrightarrow>
     map (key_item py) a = map (key_item py) a' \<and> kwd_items py k = kwd_items py k'"
proof (induction a arbitrary: a')
  case Nil
  show ?case
  proof (cases a')
    case Nil
    show ?thesis
    proof (cases "k = []"; cases "k' = []")
      assume "k \<noteq> []" "k' = []"
      then show ?thesis using Nil by (cases k) (auto simp: key_tuple_def)
    next
      assume "k = []" "k' \<noteq> []"
      then show ?thesis using Nil by (cases k') (auto simp: key_tuple_def)
    qed (simp_all add: key_tuple_def Nil)
  next
    case (Cons x xs)
    then show ?thesis by (cases "k = []") (simp_all add: key_tuple_def)
  qed
next
  case (Cons x a)
  show ?case
  proof (cases a')
    case Nil
    then show ?thesis by (cases "k' = []") (simp_all add: key_tuple_def)
  next
    case (Cons y ys)
    with Cons.IH [of ys] show ?thesis by (simp add: key_tuple_def)
  qed
qed

lemma fast_path_iff: "fast_path py a k \<longleftrightarrow> (\<exists>x. a = [x] \<and> k = [] \<and> is_fast py x)"
  by (induction py a k rule: fast_path.induct) auto

lemma key_of_eq_iff:
  "key_of py a k = key_of py a' k' \<longleftrightarrow>
     (fast_path py a k \<and> fast_path py a' k' \<and> eq_class py (hd a) = eq_class py (hd a')) \<or>
     (\<not> fast_path py a k \<and> \<not> fast_path py a' k' \<and> key_tuple py a k = key_tuple py a' k')"
  by (simp add: key_of_def)

lemma hashable_key_tuple:
  "list_all (is_hashable py) (a @ map snd k) \<longleftrightarrow> No_hash \<notin> set (key_tuple py a k)"
proof -
  have k: "list_all (is_hashable py) (map snd k) \<longleftrightarrow> No_hash \<notin> set (kwd_items py k)" for k
    by (induction k) (auto simp: key_item_No_hash)
  have a: "list_all (is_hashable py) a \<longleftrightarrow> No_hash \<notin> set (map (key_item py) a)"
    by (induction a) (auto simp: key_item_No_hash)
  show ?thesis using a k [of k] by (auto simp: key_tuple_def)
qed

lemma key_of_hashes:
  assumes "key_of py a k = key_of py a' k'"
  shows "hashes py a k = hashes py a' k'"
proof (cases "fast_path py a k")
  case True
  with assms have "fast_path py a' k'" by (simp add: key_of_eq_iff)
  with True show ?thesis by (simp add: hashes_def)
next
  case False
  with assms have nf: "\<not> fast_path py a' k'" and eq: "key_tuple py a k = key_tuple py a' k'"
    by (simp_all add: key_of_eq_iff)
  have "list_all (is_hashable py) (a @ map snd k) = list_all (is_hashable py) (a' @ map snd k')"
    by (simp only: hashable_key_tuple eq)
  with False nf show ?thesis by (simp only: hashes_def)
qed

lemma key_of_names:
  assumes "key_of py a k = key_of py a' k'"
  shows "map fst k = map fst k'"
  using assms by (auto simp: key_of_eq_iff fast_path_iff key_tuple_eq_iff kwd_items_eq_iff)

lemma map_key_item_eq:
  "list_all (is_hashable py) xs \<Longrightarrow> list_all (is_hashable py) ys \<Longrightarrow>
   map (key_item py) xs = map (key_item py) ys \<longleftrightarrow> map (eq_class py) xs = map (eq_class py) ys"
proof (induction xs arbitrary: ys)
  case Nil
  then show ?case by simp
next
  case (Cons x xs)
  then show ?case by (cases ys) (auto simp: key_item_def)
qed

lemma key_of_eq_classes:
  assumes h: "hashes py xs k" and h': "hashes py ys k'"
  shows "key_of py xs k = key_of py ys k' \<longleftrightarrow>
     fast_path py xs k = fast_path py ys k' \<and>
     map (eq_class py) xs = map (eq_class py) ys \<and>
     map fst k = map fst k' \<and>
     map (eq_class py \<circ> snd) k = map (eq_class py \<circ> snd) k'"
proof (cases "fast_path py xs k")
  case True
  note f = this
  show ?thesis
  proof (cases "fast_path py ys k'")
    case True
    with f show ?thesis by (auto simp: key_of_eq_iff fast_path_iff)
  next
    case False
    with f show ?thesis by (simp add: key_of_eq_iff)
  qed
next
  case False
  note nf = this
  show ?thesis
  proof (cases "fast_path py ys k'")
    case True
    with nf show ?thesis by (simp add: key_of_eq_iff)
  next
    case False
    from h nf have a: "list_all (is_hashable py) xs"
      and b: "list_all (is_hashable py) (map snd k)" by (simp_all add: hashes_def)
    from h' False have a': "list_all (is_hashable py) ys"
      and b': "list_all (is_hashable py) (map snd k')" by (simp_all add: hashes_def)
    have "map (key_item py \<circ> snd) k = map (key_item py \<circ> snd) k' \<longleftrightarrow>
          map (eq_class py \<circ> snd) k = map (eq_class py \<circ> snd) k'"
      using map_key_item_eq [OF b b'] by simp
    with nf False map_key_item_eq [OF a a'] show ?thesis
      by (simp add: key_of_eq_iff key_tuple_eq_iff kwd_items_eq_iff)
  qed
qed

lemma length_delete:
  "distinct (map fst xs) \<Longrightarrow> k \<in> fst ` set xs \<Longrightarrow> Suc (length (AList.delete k xs)) = length xs"
proof (induction xs)
  case Nil
  then show ?case by simp
next
  case (Cons a xs)
  show ?case
  proof (cases "fst a = k")
    case True
    with Cons.prems have "k \<notin> fst ` set xs" by auto
    then have "AList.delete k xs = xs" by simp
    with True show ?thesis by (cases a) simp
  next
    case False
    with Cons.prems have "k \<in> fst ` set xs" by auto
    with Cons have "Suc (length (AList.delete k xs)) = length xs" by simp
    with False show ?thesis by (cases a) auto
  qed
qed

lemma map_of_delete_append: "map_of (AList.delete k xs @ [(k, v)]) = (map_of xs)(k \<mapsto> v)"
  by (rule ext) (auto simp: map_add_def AList.delete_conv split: option.splits)

lemma map_of_append_new:
  "map_of xs k = None \<Longrightarrow> map_of (xs @ [(k, v)]) = (map_of xs)(k \<mapsto> v)"
  by (rule ext) (simp add: map_add_def split: option.splits)

lemma map_of_tl_append_new:
  "map_of xs k = None \<Longrightarrow> map_of (tl xs @ [(k, v)]) k = Some v"
proof -
  assume "map_of xs k = None"
  then have "k \<notin> fst ` set xs" by (simp add: map_of_eq_None_iff)
  then have "k \<notin> fst ` set (tl xs)" by (cases xs) auto
  then have "map_of (tl xs) k = None" by (simp add: map_of_eq_None_iff)
  then show ?thesis by (simp add: map_add_def)
qed

section \<open>The cases of \<^verbatim>\<open>_lru_cache_wrapper\<close>\<close>

lemma lru_zero:
  "maxsize st = Some 0 \<Longrightarrow>
   lru_cache_wrapper py uf a k st w = (fst (uf a k w), st\<lparr>misses := misses st + 1\<rparr>, snd (uf a k w))"
  by (simp add: lru_cache_wrapper_def split: prod.splits)

lemma lru_unhashable:
  "maxsize st \<noteq> Some 0 \<Longrightarrow> \<not> hashes py a k \<Longrightarrow>
   lru_cache_wrapper py uf a k st w = (Inl (type_error py), st, w)"
  by (simp add: lru_cache_wrapper_def make_key_def)

lemma lru_hit_unbounded:
  "hashes py a k \<Longrightarrow> maxsize st = None \<Longrightarrow> map_of (cache_dict st) (key_of py a k) = Some v \<Longrightarrow>
   lru_cache_wrapper py uf a k st w = (Inr v, st\<lparr>hits := hits st + 1\<rparr>, w)"
  by (simp add: lru_cache_wrapper_def make_key_def)

lemma lru_hit_bounded:
  "hashes py a k \<Longrightarrow> maxsize st = Some m \<Longrightarrow> m \<noteq> 0 \<Longrightarrow> map_of (cache_dict st) (key_of py a k) = Some v \<Longrightarrow>
   lru_cache_wrapper py uf a k st w =
     (Inr v, st\<lparr>cache_dict := AList.delete (key_of py a k) (cache_dict st) @ [(key_of py a k, v)],
               hits := hits st + 1\<rparr>, w)"
  by (simp add: lru_cache_wrapper_def make_key_def)

lemma lru_miss_raise:
  "hashes py a k \<Longrightarrow> maxsize st \<noteq> Some 0 \<Longrightarrow> map_of (cache_dict st) (key_of py a k) = None \<Longrightarrow>
   uf a k w = (Inl e, w') \<Longrightarrow>
   lru_cache_wrapper py uf a k st w = (Inl e, st\<lparr>misses := misses st + 1\<rparr>, w')"
  by (simp add: lru_cache_wrapper_def make_key_def)

lemma lru_miss_unbounded:
  "hashes py a k \<Longrightarrow> maxsize st = None \<Longrightarrow> map_of (cache_dict st) (key_of py a k) = None \<Longrightarrow>
   uf a k w = (Inr v, w') \<Longrightarrow>
   lru_cache_wrapper py uf a k st w =
     (Inr v, st\<lparr>misses := misses st + 1,
               cache_dict := AList.update (key_of py a k) v (cache_dict st)\<rparr>, w')"
  by (simp add: lru_cache_wrapper_def make_key_def)

lemma lru_miss_bounded:
  assumes "hashes py a k" and "maxsize st = Some m" and "m \<noteq> 0"
    and "map_of (cache_dict st) (key_of py a k) = None" and "uf a k w = (Inr v, w')"
  shows "lru_cache_wrapper py uf a k st w =
     (Inr v,
      (if full st then
         st\<lparr>misses := misses st + 1,
            cache_dict := tl (cache_dict st) @ [(key_of py a k, v)]\<rparr>
       else
         st\<lparr>misses := misses st + 1,
            cache_dict := cache_dict st @ [(key_of py a k, v)],
            full := (m \<le> length (cache_dict st) + 1)\<rparr>), w')"
proof -
  have "key_of py a k \<notin> fst ` set (cache_dict st)"
    using assms(4) by (simp add: map_of_eq_None_iff)
  then show ?thesis using assms by (simp add: lru_cache_wrapper_def make_key_def)
qed

lemma lru_not_full:
  assumes "lru_inv S st" and "k \<in> S" and "k \<notin> fst ` set (cache_dict st)"
    and "maxsize st = Some m"
  shows "\<not> full st \<and> length (cache_dict st) < m"
proof -
  have fin: "finite S" and sub: "fst ` set (cache_dict st) \<subseteq> S"
    and dist: "distinct (map fst (cache_dict st))" and cap: "card S \<le> m"
    and fl: "full st \<longrightarrow> m \<le> length (cache_dict st)"
    using assms(1,4) by (simp_all add: lru_inv_def)
  have "fst ` set (cache_dict st) \<subset> S" using sub assms(2,3) by blast
  with fin have "card (fst ` set (cache_dict st)) < card S" by (rule psubset_card_mono)
  moreover have "card (fst ` set (cache_dict st)) = length (cache_dict st)"
    using dist distinct_card [of "map fst (cache_dict st)"] by simp
  ultimately have "length (cache_dict st) < m" using cap by simp
  then show ?thesis using fl by auto
qed

lemma lru_inv_nonzero: "lru_inv S st \<Longrightarrow> k \<in> S \<Longrightarrow> maxsize st \<noteq> Some 0"
proof
  assume "lru_inv S st" and "k \<in> S" and "maxsize st = Some 0"
  then have "finite S" and "card S = 0" by (simp_all add: lru_inv_def)
  with \<open>k \<in> S\<close> show False by auto
qed

lemma lru_step_inv:
  assumes inv: "lru_inv S st" and key: "key_of py a k \<in> S"
    and step: "lru_cache_wrapper py uf a k st w = (r, st', w')"
  shows "lru_inv S st' \<and> maxsize st' = maxsize st \<and>
         (\<forall>k' v. map_of (cache_dict st) k' = Some v \<longrightarrow> map_of (cache_dict st') k' = Some v) \<and>
         (\<forall>v. r = Inr v \<longrightarrow> map_of (cache_dict st') (key_of py a k) = Some v)"
proof -
  let ?key = "key_of py a k"
  have nz: "maxsize st \<noteq> Some 0" using inv key by (rule lru_inv_nonzero)
  have fin: "finite S" and sub: "fst ` set (cache_dict st) \<subseteq> S"
    and dist: "distinct (map fst (cache_dict st))"
    using inv by (simp_all add: lru_inv_def)
  show ?thesis
  proof (cases "hashes py a k")
    case False
    from step lru_unhashable [OF nz False, of uf w] have "st' = st" and "r = Inl (type_error py)"
      by simp_all
    with inv show ?thesis by simp
  next
    case h: True
  show ?thesis
  proof (cases "map_of (cache_dict st) ?key")
    case (Some v)
    note hit = this
    then have in_dict: "?key \<in> fst ` set (cache_dict st)"
      using map_of_eq_None_iff [of "cache_dict st" ?key] by simp
    show ?thesis
    proof (cases "maxsize st")
      case None
      with hit step h have "st' = st\<lparr>hits := hits st + 1\<rparr>" and "r = Inr v"
        by (simp_all add: lru_hit_unbounded)
      with inv hit None show ?thesis by (simp add: lru_inv_def split: option.splits)
    next
      case (Some m)
      with nz have m0: "m \<noteq> 0" by simp
      have eq: "st' = st\<lparr>cache_dict := AList.delete ?key (cache_dict st) @ [(?key, v)],
                 hits := hits st + 1\<rparr>" and r: "r = Inr v"
        using step lru_hit_bounded [OF h Some m0 hit, of uf w]
        by simp_all
      have len: "length (cache_dict st') = length (cache_dict st)"
        using length_delete [OF dist in_dict] eq by simp
      have d': "distinct (map fst (cache_dict st'))"
        using dist eq by (simp add: AList.distinct_delete AList.delete_notin_dom)
      have s': "fst ` set (cache_dict st') \<subseteq> S"
        using sub key eq AList.dom_delete_subset [of ?key "cache_dict st"] by auto
      have inv': "lru_inv S st'"
        using inv Some len d' s' eq by (simp add: lru_inv_def)
      have m': "map_of (cache_dict st') = (map_of (cache_dict st))(?key \<mapsto> v)"
        using eq map_of_delete_append [of ?key "cache_dict st" v] by simp
      show ?thesis using inv' m' r eq hit by auto
    qed
  next
    case None
    note miss = this
    then have notin: "?key \<notin> fst ` set (cache_dict st)" by (simp add: map_of_eq_None_iff)
    obtain res w1 where uf: "uf a k w = (res, w1)" by (cases "uf a k w")
    show ?thesis
    proof (cases res)
      case (Inl e)
      with uf step nz miss h have "st' = st\<lparr>misses := misses st + 1\<rparr>" and "r = Inl e"
        by (simp_all add: lru_miss_raise)
      with inv miss show ?thesis by (simp add: lru_inv_def split: option.splits)
    next
      case (Inr v)
      show ?thesis
      proof (cases "maxsize st")
        case None
        have eq: "st' = st\<lparr>misses := misses st + 1,
               cache_dict := AList.update ?key v (cache_dict st)\<rparr>" and r: "r = Inr v"
          using step uf Inr lru_miss_unbounded [OF h None miss, of uf w v w1]
          by simp_all
        have inv': "lru_inv S st'"
          using inv None eq key by (simp add: lru_inv_def AList.distinct_update AList.dom_update)
        have m': "map_of (cache_dict st') = (map_of (cache_dict st))(?key \<mapsto> v)"
          using eq by (simp add: AList.update_conv')
        show ?thesis using inv' m' r eq miss by auto
      next
        case (Some m)
        with nz have m0: "m \<noteq> 0" by simp
        have nf: "\<not> full st" and lt: "length (cache_dict st) < m"
          using lru_not_full [OF inv key notin Some] by simp_all
        have eq: "st' = st\<lparr>misses := misses st + 1,
               cache_dict := cache_dict st @ [(?key, v)],
               full := (m \<le> length (cache_dict st) + 1)\<rparr>" and r: "r = Inr v"
          using step uf Inr nf
            lru_miss_bounded [OF h Some m0 miss, of uf w v w1]
          by simp_all
        have inv': "lru_inv S st'"
          using inv Some eq key notin by (simp add: lru_inv_def)
        have m': "map_of (cache_dict st') = (map_of (cache_dict st))(?key \<mapsto> v)"
          using eq map_of_append_new [OF miss, of v] by simp
        show ?thesis using inv' m' r eq miss by auto
      qed
    qed
  qed
  qed
qed

section \<open>The cases of \<^verbatim>\<open>wrapper\<close>\<close>

lemma wrapper_in_key:
  "trace_context_in_key c \<Longrightarrow> \<not> check_tracer_leaks cfg \<Longrightarrow>
   lru_cache_wrapper py (cached py (wrapped c)) (trace_context cfg # a) k (lru c) w = (r, st, w') \<Longrightarrow>
   wrapper py cfg c a k w = (r, c\<lparr>lru := st\<rparr>, w')"
  by (simp add: wrapper_def)

lemma wrapper_plain:
  "\<not> trace_context_in_key c \<Longrightarrow>
   lru_cache_wrapper py (invoke (wrapped c)) a k (lru c) w = (r, st, w') \<Longrightarrow>
   wrapper py cfg c a k w = (r, c\<lparr>lru := st\<rparr>, w')"
  by (simp add: wrapper_def)

lemma cache_key_in_key:
  "trace_context_in_key c \<Longrightarrow> cache_key py c (cfg, a, k) = key_of py (trace_context cfg # a) k"
  by (simp add: cache_key_def)

lemma cache_key_plain:
  "\<not> trace_context_in_key c \<Longrightarrow> cache_key py c (cfg, a, k) = key_of py a k"
  by (simp add: cache_key_def)

lemma cache_key_cong:
  "trace_context_in_key c' = trace_context_in_key c \<Longrightarrow> cache_key py c' call = cache_key py c call"
  by (simp add: cache_key_def)

lemma key_hashes_in_key:
  "trace_context_in_key c \<Longrightarrow> key_hashes py c (cfg, a, k) = hashes py (trace_context cfg # a) k"
  by (simp add: key_hashes_def)

lemma key_hashes_plain:
  "\<not> trace_context_in_key c \<Longrightarrow> key_hashes py c (cfg, a, k) = hashes py a k"
  by (simp add: key_hashes_def)

lemma key_hashes_cong:
  "trace_context_in_key c' = trace_context_in_key c \<Longrightarrow> key_hashes py c' call = key_hashes py c call"
  by (simp add: key_hashes_def)

lemma cache_key_hashes:
  "cache_key py c call = cache_key py c call' \<Longrightarrow> key_hashes py c call = key_hashes py c call'"
  by (cases call; cases call') (auto simp: cache_key_def key_hashes_def dest: key_of_hashes)

lemma cache_key_names:
  "cache_key py c (cfg, a, k) = cache_key py c (cfg', a', k') \<Longrightarrow> map fst k = map fst k'"
  by (auto simp: cache_key_def dest: key_of_names split: if_splits)

lemma wrapper_step_inv:
  assumes inv: "lru_inv S (lru c)" and key: "cache_key py c (cfg, a, k) \<in> S"
    and nb: "\<not> (trace_context_in_key c \<and> check_tracer_leaks cfg)"
    and step: "wrapper py cfg c a k w = (r, c', w')"
  shows "lru_inv S (lru c') \<and> trace_context_in_key c' = trace_context_in_key c \<and>
         wrapped c' = wrapped c \<and> maxsize (lru c') = maxsize (lru c) \<and>
         (\<forall>k' v. map_of (cache_dict (lru c)) k' = Some v \<longrightarrow>
                 map_of (cache_dict (lru c')) k' = Some v) \<and>
         (\<forall>v. r = Inr v \<longrightarrow> map_of (cache_dict (lru c')) (cache_key py c (cfg, a, k)) = Some v)"
proof (cases "trace_context_in_key c")
  case True
  with nb have nl: "\<not> check_tracer_leaks cfg" by simp
  obtain r1 st w1 where
    l: "lru_cache_wrapper py (cached py (wrapped c)) (trace_context cfg # a) k (lru c) w = (r1, st, w1)"
    by (cases "lru_cache_wrapper py (cached py (wrapped c)) (trace_context cfg # a) k (lru c) w")
  from wrapper_in_key [OF True nl l] step
  have eq: "r = r1" "c' = c\<lparr>lru := st\<rparr>" "w' = w1" by simp_all
  from key True have "key_of py (trace_context cfg # a) k \<in> S" by (simp add: cache_key_in_key)
  from lru_step_inv [OF inv this l] eq True show ?thesis by (simp add: cache_key_in_key)
next
  case False
  obtain r1 st w1 where
    l: "lru_cache_wrapper py (invoke (wrapped c)) a k (lru c) w = (r1, st, w1)"
    by (cases "lru_cache_wrapper py (invoke (wrapped c)) a k (lru c) w")
  from wrapper_plain [OF False l] step
  have eq: "r = r1" "c' = c\<lparr>lru := st\<rparr>" "w' = w1" by simp_all
  from key False have "key_of py a k \<in> S" by (simp add: cache_key_plain)
  from lru_step_inv [OF inv this l] eq False show ?thesis by (simp add: cache_key_plain)
qed

lemma run_calls_inv:
  assumes "lru_inv S (lru c)"
    and "\<forall>call\<in>set cs. cache_key py c call \<in> S \<and>
           \<not> (trace_context_in_key c \<and> check_tracer_leaks (fst call))"
    and "run_calls py cs c w = (c', w')"
  shows "lru_inv S (lru c') \<and> trace_context_in_key c' = trace_context_in_key c \<and>
         maxsize (lru c') = maxsize (lru c) \<and>
         (\<forall>k' v. map_of (cache_dict (lru c)) k' = Some v \<longrightarrow>
                 map_of (cache_dict (lru c')) k' = Some v)"
  using assms
proof (induction cs arbitrary: c w)
  case Nil
  then show ?case by simp
next
  case (Cons call cs)
  obtain cfg a k where call: "call = (cfg, a, k)" by (cases call)
  obtain r c1 w1 where step: "wrapper py cfg c a k w = (r, c1, w1)"
    by (cases "wrapper py cfg c a k w")
  from Cons.prems(2) call have key: "cache_key py c (cfg, a, k) \<in> S"
    and nb: "\<not> (trace_context_in_key c \<and> check_tracer_leaks cfg)" by simp_all
  note s = wrapper_step_inv [OF Cons.prems(1) key nb step]
  from s have tc: "trace_context_in_key c1 = trace_context_in_key c" by simp
  have rest: "\<forall>call\<in>set cs. cache_key py c1 call \<in> S \<and>
           \<not> (trace_context_in_key c1 \<and> check_tracer_leaks (fst call))"
    using Cons.prems(2) tc by (simp add: cache_key_cong [OF tc])
  from Cons.prems(3) call step have run: "run_calls py cs c1 w1 = (c', w')" by simp
  from s have inv1: "lru_inv S (lru c1)" by simp
  note r = Cons.IH [OF inv1 rest run]
  from r s show ?case by simp
qed

lemma wrapper_hit:
  assumes nb: "\<not> (trace_context_in_key c \<and> check_tracer_leaks cfg)"
    and nz: "maxsize (lru c) \<noteq> Some 0"
    and hit: "map_of (cache_dict (lru c)) (cache_key py c (cfg, a, k)) = Some v"
    and kh: "key_hashes py c (cfg, a, k)"
  shows "fst (wrapper py cfg c a k w) = Inr v \<and> snd (snd (wrapper py cfg c a k w)) = w \<and>
         hits (lru (fst (snd (wrapper py cfg c a k w)))) = hits (lru c) + 1 \<and>
         misses (lru (fst (snd (wrapper py cfg c a k w)))) = misses (lru c)"
proof (cases "maxsize (lru c)")
  case None
  show ?thesis
  proof (cases "trace_context_in_key c")
    case True
    with hit have h: "map_of (cache_dict (lru c)) (key_of py (trace_context cfg # a) k) = Some v"
      by (simp add: cache_key_in_key)
    from kh True have hh: "hashes py (trace_context cfg # a) k" by (simp add: key_hashes_in_key)
    from True nb wrapper_in_key [OF True _ lru_hit_unbounded [OF hh None h]]
    show ?thesis by simp
  next
    case False
    with hit have h: "map_of (cache_dict (lru c)) (key_of py a k) = Some v"
      by (simp add: cache_key_plain)
    from kh False have hh: "hashes py a k" by (simp add: key_hashes_plain)
    from wrapper_plain [OF False lru_hit_unbounded [OF hh None h]]
    show ?thesis by simp
  qed
next
  case (Some m)
  with nz have m0: "m \<noteq> 0" by simp
  show ?thesis
  proof (cases "trace_context_in_key c")
    case True
    with hit have h: "map_of (cache_dict (lru c)) (key_of py (trace_context cfg # a) k) = Some v"
      by (simp add: cache_key_in_key)
    from kh True have hh: "hashes py (trace_context cfg # a) k" by (simp add: key_hashes_in_key)
    from True nb wrapper_in_key [OF True _ lru_hit_bounded [OF hh Some m0 h]]
    show ?thesis by simp
  next
    case False
    with hit have h: "map_of (cache_dict (lru c)) (key_of py a k) = Some v"
      by (simp add: cache_key_plain)
    from kh False have hh: "hashes py a k" by (simp add: key_hashes_plain)
    from wrapper_plain [OF False lru_hit_bounded [OF hh Some m0 h]]
    show ?thesis by simp
  qed
qed

lemma wrap_Inr:
  "wrap max_size in_key f = Inr c \<Longrightarrow>
   wrapped c = f \<and> trace_context_in_key c = in_key \<and>
   (\<exists>m. lru c = lru_init m \<and> lru_cache max_size = Inr (lru_init m))"
  by (cases max_size) (auto simp: wrap_def lru_cache_def split: sum.splits if_splits)

lemma lru_inv_init:
  "finite S \<Longrightarrow> (case m of None \<Rightarrow> True | Some n \<Rightarrow> card S \<le> n) \<Longrightarrow> lru_inv S (lru_init m)"
  by (simp add: lru_inv_def lru_init_def split: option.splits)

lemma lru_stores:
  assumes nz: "maxsize st \<noteq> Some 0"
    and step: "lru_cache_wrapper py uf a k st w = (Inr v, st', w')"
  shows "hashes py a k \<and> map_of (cache_dict st') (key_of py a k) = Some v \<and>
         maxsize st' = maxsize st"
proof (cases "hashes py a k")
  case False
  from step lru_unhashable [OF nz False, of uf w] show ?thesis by simp
next
  case h: True
  show ?thesis
  proof (cases "map_of (cache_dict st) (key_of py a k)")
    case (Some v0)
    note hit = this
    show ?thesis
    proof (cases "maxsize st")
      case None
      from step lru_hit_unbounded [OF h None hit, of uf w] hit h show ?thesis by auto
    next
      case (Some m)
      with nz have "m \<noteq> 0" by simp
      from step lru_hit_bounded [OF h Some this hit, of uf w]
        map_of_delete_append [of "key_of py a k" "cache_dict st" v0] h
      show ?thesis by auto
    qed
  next
    case None
    note miss = this
    obtain res w1 where uf: "uf a k w = (res, w1)" by (cases "uf a k w")
    show ?thesis
    proof (cases res)
      case (Inl e)
      with step lru_miss_raise [OF h nz miss, of uf w e w1] uf show ?thesis by simp
    next
      case (Inr v1)
      show ?thesis
      proof (cases "maxsize st")
        case None
        from step lru_miss_unbounded [OF h None miss, of uf w v1 w1] uf Inr h
        show ?thesis by (auto simp: AList.update_conv')
      next
        case (Some m)
        with nz have "m \<noteq> 0" by simp
        from step lru_miss_bounded [OF h Some this miss, of uf w v1 w1] uf Inr h
          map_of_tl_append_new [OF miss, of v1] map_of_append_new [OF miss, of v1]
        show ?thesis by (cases "full st") (auto simp: map_add_def)
      qed
    qed
  qed
qed

lemma lru_miss_calls:
  assumes "maxsize st = Some 0 \<or>
           (hashes py a k \<and> map_of (cache_dict st) (key_of py a k) = None)"
  shows "fst (lru_cache_wrapper py uf a k st w) = fst (uf a k w) \<and>
         snd (snd (lru_cache_wrapper py uf a k st w)) = snd (uf a k w) \<and>
         misses (fst (snd (lru_cache_wrapper py uf a k st w))) = misses st + 1 \<and>
         hits (fst (snd (lru_cache_wrapper py uf a k st w))) = hits st \<and>
         maxsize (fst (snd (lru_cache_wrapper py uf a k st w))) = maxsize st \<and>
         (\<forall>e. fst (uf a k w) = Inl e \<longrightarrow>
            fst (snd (lru_cache_wrapper py uf a k st w)) = st\<lparr>misses := misses st + 1\<rparr>)"
proof (cases "maxsize st = Some 0")
  case True
  then show ?thesis by (simp add: lru_zero)
next
  case False
  with assms have h: "hashes py a k"
    and miss: "map_of (cache_dict st) (key_of py a k) = None" by simp_all
  obtain res w1 where uf: "uf a k w = (res, w1)" by (cases "uf a k w")
  show ?thesis
  proof (cases res)
    case (Inl e)
    with uf lru_miss_raise [OF h False miss, of uf w e w1] show ?thesis by simp
  next
    case (Inr v)
    show ?thesis
    proof (cases "maxsize st")
      case None
      with uf Inr lru_miss_unbounded [OF h None miss, of uf w v w1] show ?thesis by simp
    next
      case (Some m)
      with False have "m \<noteq> 0" by simp
      with uf Inr lru_miss_bounded [OF h Some this miss, of uf w v w1] Some show ?thesis by simp
    qed
  qed
qed

lemma lru_hit:
  assumes nz: "maxsize st \<noteq> Some 0" and h: "hashes py a k"
    and hit: "map_of (cache_dict st) (key_of py a k) = Some v"
  shows "fst (lru_cache_wrapper py uf a k st w) = Inr v \<and>
         snd (snd (lru_cache_wrapper py uf a k st w)) = w"
proof (cases "maxsize st")
  case None
  from lru_hit_unbounded [OF h None hit, of uf w] show ?thesis by simp
next
  case (Some m)
  with nz have "m \<noteq> 0" by simp
  from lru_hit_bounded [OF h Some this hit, of uf w] show ?thesis by simp
qed

lemma lru_maxsize:
  "maxsize (fst (snd (lru_cache_wrapper py uf a k st w))) = maxsize st"
  by (simp add: lru_cache_wrapper_def split: prod.splits option.splits sum.splits)

lemma cached_invoke:
  "''_'' \<notin> fst ` set k \<Longrightarrow> cached py g (ctx # a) k w = invoke g a k w"
  by (simp add: cached_def)

lemma cached_clash:
  "''_'' \<in> fst ` set k \<Longrightarrow> cached py g (ctx # a) k w = (Inl (type_error py), w)"
  by (simp add: cached_def)

lemma invoke_eq:
  "invoke g a k w =
     (fst (g (env w) a k), \<lparr>env = snd (g (env w) a k), invoked = invoked w @ [(a, k)]\<rparr>)"
  by (simp add: invoke_def split: prod.splits)

lemma wrapper_bypass:
  "trace_context_in_key c \<Longrightarrow> check_tracer_leaks cfg \<Longrightarrow>
   wrapper py cfg c a k w =
     (fst (wrapped c (env w) a k), c,
      \<lparr>env = snd (wrapped c (env w) a k), invoked = invoked w @ [(a, k)]\<rparr>)"
  by (simp add: wrapper_def invoke_eq)

lemma wrapper_lru:
  assumes "\<not> (trace_context_in_key c \<and> check_tracer_leaks cfg)"
  shows "wrapper py cfg c a k w =
     (case lru_cache_wrapper py
             (if trace_context_in_key c then cached py (wrapped c) else invoke (wrapped c))
             (if trace_context_in_key c then trace_context cfg # a else a) k (lru c) w of
        (r, st, w') \<Rightarrow> (r, c\<lparr>lru := st\<rparr>, w'))"
  using assms by (simp add: wrapper_def)

lemma cache_key_if:
  "cache_key py c (cfg, a, k) =
     key_of py (if trace_context_in_key c then trace_context cfg # a else a) k"
  by (simp add: cache_key_def)

lemma key_hashes_if:
  "key_hashes py c (cfg, a, k) =
     hashes py (if trace_context_in_key c then trace_context cfg # a else a) k"
  by (simp add: key_hashes_def)

lemma wrapper_unhashable:
  assumes "\<not> (trace_context_in_key c \<and> check_tracer_leaks cfg)"
    and "maxsize (lru c) \<noteq> Some 0" and "\<not> key_hashes py c (cfg, a, k)"
  shows "wrapper py cfg c a k w = (Inl (type_error py), c, w)"
  using assms by (simp add: wrapper_lru key_hashes_if lru_unhashable)

lemma user_function_eq:
  "(if trace_context_in_key c then cached py (wrapped c) else invoke (wrapped c))
      (if trace_context_in_key c then ctx # a else a) k w =
   (if underscore_clash c k then (Inl (type_error py), w)
    else (fst (wrapped c (env w) a k),
          \<lparr>env = snd (wrapped c (env w) a k), invoked = invoked w @ [(a, k)]\<rparr>))"
  by (simp add: underscore_clash_def cached_def invoke_eq)

lemma wrapper_miss:
  assumes nb: "\<not> (trace_context_in_key c \<and> check_tracer_leaks cfg)"
    and miss: "maxsize (lru c) = Some 0 \<or>
      (key_hashes py c (cfg, a, k) \<and>
       map_of (cache_dict (lru c)) (cache_key py c (cfg, a, k)) = None)"
  shows "fst (wrapper py cfg c a k w) =
           (if underscore_clash c k then Inl (type_error py) else fst (wrapped c (env w) a k)) \<and>
         snd (snd (wrapper py cfg c a k w)) =
           (if underscore_clash c k then w
            else \<lparr>env = snd (wrapped c (env w) a k), invoked = invoked w @ [(a, k)]\<rparr>) \<and>
         misses (lru (fst (snd (wrapper py cfg c a k w)))) = misses (lru c) + 1 \<and>
         hits (lru (fst (snd (wrapper py cfg c a k w)))) = hits (lru c) \<and>
         (\<forall>e. fst (wrapper py cfg c a k w) = Inl e \<longrightarrow>
            fst (snd (wrapper py cfg c a k w)) =
              c\<lparr>lru := (lru c)\<lparr>misses := misses (lru c) + 1\<rparr>\<rparr>)"
proof -
  let ?uf = "if trace_context_in_key c then cached py (wrapped c) else invoke (wrapped c)"
  let ?xs = "if trace_context_in_key c then trace_context cfg # a else a"
  from miss have m: "maxsize (lru c) = Some 0 \<or>
      (hashes py ?xs k \<and> map_of (cache_dict (lru c)) (key_of py ?xs k) = None)"
    by (simp only: cache_key_if key_hashes_if)
  note l = lru_miss_calls [OF m, of ?uf w]
  note u = user_function_eq [where c = c and py = py and ctx = "trace_context cfg" and a = a and k = k and w = w]
  obtain r st w1 where res: "lru_cache_wrapper py ?uf ?xs k (lru c) w = (r, st, w1)"
    by (cases "lru_cache_wrapper py ?uf ?xs k (lru c) w")
  have w: "wrapper py cfg c a k w = (r, c\<lparr>lru := st\<rparr>, w1)"
    using wrapper_lru [OF nb, where py = py and a = a and k = k and w = w] res by simp
  from l res u w show ?thesis by (cases "underscore_clash c k") auto
qed

lemma wrapper_stores:
  assumes nb: "\<not> (trace_context_in_key c \<and> check_tracer_leaks cfg)"
    and nz: "maxsize (lru c) \<noteq> Some 0"
    and step: "wrapper py cfg c a k w = (Inr v, c', w')"
  shows "key_hashes py c (cfg, a, k) \<and>
         map_of (cache_dict (lru c')) (cache_key py c (cfg, a, k)) = Some v \<and>
         maxsize (lru c') = maxsize (lru c) \<and> trace_context_in_key c' = trace_context_in_key c"
proof -
  let ?uf = "if trace_context_in_key c then cached py (wrapped c) else invoke (wrapped c)"
  let ?xs = "if trace_context_in_key c then trace_context cfg # a else a"
  obtain r st w1 where res: "lru_cache_wrapper py ?uf ?xs k (lru c) w = (r, st, w1)"
    by (cases "lru_cache_wrapper py ?uf ?xs k (lru c) w")
  from wrapper_lru [OF nb, where py = py and a = a and k = k and w = w] res step
  have eq: "r = Inr v" "c' = c\<lparr>lru := st\<rparr>" "w' = w1" by simp_all
  from lru_stores [OF nz res [unfolded eq(1)]] eq show ?thesis
    by (simp only: cache_key_if key_hashes_if) simp
qed

lemma wrapper_preserves:
  "trace_context_in_key (fst (snd (wrapper py cfg c a k w))) = trace_context_in_key c \<and>
   wrapped (fst (snd (wrapper py cfg c a k w))) = wrapped c \<and>
   maxsize (lru (fst (snd (wrapper py cfg c a k w)))) = maxsize (lru c)"
proof (cases "trace_context_in_key c \<and> check_tracer_leaks cfg")
  case True
  then show ?thesis by (simp add: wrapper_bypass)
next
  case False
  let ?uf = "if trace_context_in_key c then cached py (wrapped c) else invoke (wrapped c)"
  let ?xs = "if trace_context_in_key c then trace_context cfg # a else a"
  obtain r st w1 where res: "lru_cache_wrapper py ?uf ?xs k (lru c) w = (r, st, w1)"
    by (cases "lru_cache_wrapper py ?uf ?xs k (lru c) w")
  from wrapper_lru [OF False, where py = py and a = a and k = k and w = w] res lru_maxsize [of py ?uf ?xs k "lru c" w]
  show ?thesis by simp
qed

lemma run_calls_preserves:
  "run_calls py cs c w = (c', w') \<Longrightarrow>
   trace_context_in_key c' = trace_context_in_key c \<and> wrapped c' = wrapped c \<and>
   maxsize (lru c') = maxsize (lru c)"
proof (induction cs arbitrary: c w)
  case Nil
  then show ?case by simp
next
  case (Cons call cs)
  obtain cfg a k where call: "call = (cfg, a, k)" by (cases call)
  obtain r c1 w1 where step: "wrapper py cfg c a k w = (r, c1, w1)"
    by (cases "wrapper py cfg c a k w")
  from Cons.prems call step have "run_calls py cs c1 w1 = (c', w')" by simp
  from Cons.IH [OF this] wrapper_preserves [of py cfg c a k w] step show ?case by simp
qed

lemma lru_distinct_step:
  assumes ms: "maxsize st = Some m"
    and keys: "map fst (cache_dict st) = drop (length ks - m) ks"
    and fl: "m \<noteq> 0 \<longrightarrow> full st = (m \<le> length ks)"
    and new: "key_of py a k \<notin> set ks"
    and step: "lru_cache_wrapper py uf a k st w = (Inr v, st', w')"
  shows "maxsize st' = Some m \<and>
         map fst (cache_dict st') =
           drop (length (ks @ [key_of py a k]) - m) (ks @ [key_of py a k]) \<and>
         (m \<noteq> 0 \<longrightarrow> full st' = (m \<le> length (ks @ [key_of py a k])))"
proof (cases "m = 0")
  case True
  with ms have z: "maxsize st = Some 0" by simp
  from step lru_zero [OF z, of py uf a k w] have "st' = st\<lparr>misses := misses st + 1\<rparr>" by simp
  with True ms keys show ?thesis by simp
next
  case False
  let ?K = "key_of py a k"
  have "?K \<notin> set (drop (length ks - m) ks)" using new in_set_dropD by fast
  with keys have "?K \<notin> fst ` set (cache_dict st)" by (metis list.set_map)
  then have miss: "map_of (cache_dict st) ?K = None" by (simp add: map_of_eq_None_iff)
  have nz: "maxsize st \<noteq> Some 0" using ms False by simp
  from lru_stores [OF nz step] have h: "hashes py a k" by simp
  obtain res w1 where uf: "uf a k w = (res, w1)" by (cases "uf a k w")
  have len: "length (cache_dict st) = length ks - (length ks - m)"
    using arg_cong [OF keys, of length] by simp
  show ?thesis
  proof (cases res)
    case (Inl e)
    with uf step lru_miss_raise [OF h nz miss, of uf w e w1] show ?thesis by simp
  next
    case (Inr v1)
    note eq = lru_miss_bounded [OF h ms False miss, of uf w v1 w1]
    show ?thesis
    proof (cases "full st")
      case True
      with fl False have le: "m \<le> length ks" by simp
      from eq uf Inr step True
      have st': "st' = st\<lparr>misses := misses st + 1,
                 cache_dict := tl (cache_dict st) @ [(?K, v1)]\<rparr>" by simp
      have "map fst (cache_dict st') = tl (drop (length ks - m) ks) @ [?K]"
        using st' keys by (simp add: map_tl)
      also have "\<dots> = drop (Suc (length ks - m)) ks @ [?K]" by (simp add: drop_Suc tl_drop)
      also have "\<dots> = drop (length (ks @ [?K]) - m) (ks @ [?K])"
        using le False by (simp add: Suc_diff_le)
      finally show ?thesis using st' ms True le by simp
    next
      case nf: False
      with fl \<open>m \<noteq> 0\<close> have lt: "length ks < m" by simp
      from eq uf Inr step nf
      have st': "st' = st\<lparr>misses := misses st + 1,
                 cache_dict := cache_dict st @ [(?K, v1)],
                 full := (m \<le> length (cache_dict st) + 1)\<rparr>" by simp
      from lt keys have k0: "map fst (cache_dict st) = ks" by simp
      then have l0: "length (cache_dict st) = length ks" using len lt by simp
      show ?thesis using st' ms k0 l0 lt by simp
    qed
  qed
qed

lemma wrapper_distinct_step:
  assumes ms: "maxsize (lru c) = Some m"
    and keys: "map fst (cache_dict (lru c)) = drop (length ks - m) ks"
    and fl: "m \<noteq> 0 \<longrightarrow> full (lru c) = (m \<le> length ks)"
    and new: "cache_key py c (cfg, a, k) \<notin> set ks"
    and nb: "\<not> (trace_context_in_key c \<and> check_tracer_leaks cfg)"
    and step: "wrapper py cfg c a k w = (Inr v, c', w')"
  shows "maxsize (lru c') = Some m \<and> trace_context_in_key c' = trace_context_in_key c \<and>
         wrapped c' = wrapped c \<and>
         map fst (cache_dict (lru c')) =
           drop (length (ks @ [cache_key py c (cfg, a, k)]) - m) (ks @ [cache_key py c (cfg, a, k)]) \<and>
         (m \<noteq> 0 \<longrightarrow> full (lru c') = (m \<le> length (ks @ [cache_key py c (cfg, a, k)]))) \<and>
         \<not> underscore_clash c k \<and> (m \<noteq> 0 \<longrightarrow> key_hashes py c (cfg, a, k))"
proof -
  let ?uf = "if trace_context_in_key c then cached py (wrapped c) else invoke (wrapped c)"
  let ?xs = "if trace_context_in_key c then trace_context cfg # a else a"
  let ?K = "cache_key py c (cfg, a, k)"
  obtain r st w1 where res: "lru_cache_wrapper py ?uf ?xs k (lru c) w = (r, st, w1)"
    by (cases "lru_cache_wrapper py ?uf ?xs k (lru c) w")
  from wrapper_lru [OF nb, where py = py and a = a and k = k and w = w] res step
  have eq: "r = Inr v" "c' = c\<lparr>lru := st\<rparr>" "w' = w1" by simp_all
  from new have n: "key_of py ?xs k \<notin> set ks" by (simp add: cache_key_if)
  note s = lru_distinct_step [OF ms keys fl n res [unfolded eq(1)]]
  have kh: "m \<noteq> 0 \<longrightarrow> key_hashes py c (cfg, a, k)"
  proof
    assume "m \<noteq> 0"
    with ms have "maxsize (lru c) \<noteq> Some 0" by simp
    from wrapper_stores [OF nb this step] show "key_hashes py c (cfg, a, k)" by simp
  qed
  have "?K \<notin> set (drop (length ks - m) ks)" using new in_set_dropD by fast
  with keys have "?K \<notin> fst ` set (cache_dict (lru c))" by (metis list.set_map)
  then have miss: "map_of (cache_dict (lru c)) ?K = None" by (simp add: map_of_eq_None_iff)
  have "maxsize (lru c) = Some 0 \<or> (key_hashes py c (cfg, a, k) \<and> map_of (cache_dict (lru c)) ?K = None)"
    using ms kh miss by (cases "m = 0") simp_all
  from wrapper_miss [OF nb this, of w] step have nc: "\<not> underscore_clash c k"
    by (cases "underscore_clash c k") simp_all
  from s eq kh nc show ?thesis by (simp add: cache_key_if)
qed

lemma run_calls_distinct:
  assumes "maxsize (lru c) = Some m"
    and "map fst (cache_dict (lru c)) = drop (length ks - m) ks"
    and "m \<noteq> 0 \<longrightarrow> full (lru c) = (m \<le> length ks)"
    and "distinct (ks @ map (cache_key py c) cs)"
    and "\<forall>call\<in>set cs. \<not> (trace_context_in_key c \<and> check_tracer_leaks (fst call))"
    and "returns_normally py cs c w"
    and "run_calls py cs c w = (c', w')"
  shows "map fst (cache_dict (lru c')) =
           drop (length (ks @ map (cache_key py c) cs) - m) (ks @ map (cache_key py c) cs) \<and>
         trace_context_in_key c' = trace_context_in_key c \<and> wrapped c' = wrapped c \<and>
         maxsize (lru c') = Some m \<and>
         (\<forall>call\<in>set cs. \<not> underscore_clash c (snd (snd call)) \<and>
            (m \<noteq> 0 \<longrightarrow> key_hashes py c call))"
  using assms
proof (induction cs arbitrary: ks c w)
  case Nil
  then show ?case by simp
next
  case (Cons call cs)
  obtain cfg a k where call: "call = (cfg, a, k)" by (cases call)
  obtain r c1 w1 where step0: "wrapper py cfg c a k w = (r, c1, w1)"
    by (cases "wrapper py cfg c a k w")
  from Cons.prems(6) call step0 obtain v where r: "r = Inr v"
    and rn: "returns_normally py cs c1 w1" by (cases r) simp_all
  from step0 r have step: "wrapper py cfg c a k w = (Inr v, c1, w1)" by simp
  from Cons.prems(4) call have new: "cache_key py c (cfg, a, k) \<notin> set ks" by auto
  from Cons.prems(5) call
  have nb: "\<not> (trace_context_in_key c \<and> check_tracer_leaks cfg)" by simp
  note s = wrapper_distinct_step [OF Cons.prems(1,2,3) new nb step]
  from s have tc: "trace_context_in_key c1 = trace_context_in_key c" by simp
  have kc: "cache_key py c1 = cache_key py c" using cache_key_cong [OF tc] by (rule ext)
  have kh: "key_hashes py c1 = key_hashes py c" using key_hashes_cong [OF tc] by (rule ext)
  have uc: "underscore_clash c1 = underscore_clash c"
    using tc by (intro ext) (simp add: underscore_clash_def)
  let ?ks = "ks @ [cache_key py c (cfg, a, k)]"
  have d: "distinct (?ks @ map (cache_key py c1) cs)"
    using Cons.prems(4) call kc by simp
  have nbs: "\<forall>call\<in>set cs. \<not> (trace_context_in_key c1 \<and> check_tracer_leaks (fst call))"
    using Cons.prems(5) tc by simp
  from Cons.prems(7) call step0 have run: "run_calls py cs c1 w1 = (c', w')" by simp
  from s have ms1: "maxsize (lru c1) = Some m"
    and k1: "map fst (cache_dict (lru c1)) = drop (length ?ks - m) ?ks"
    and f1: "m \<noteq> 0 \<longrightarrow> full (lru c1) = (m \<le> length ?ks)" by simp_all
  note ih = Cons.IH [OF ms1 k1 f1 d nbs rn run]
  from ih s call kc kh uc show ?case by simp
qed

lemma wrapper_zero:
  assumes z: "maxsize (lru c) = Some 0"
    and nb: "\<not> (trace_context_in_key c \<and> check_tracer_leaks cfg)"
  shows "wrapper py cfg c a k w =
     (if underscore_clash c k
      then (Inl (type_error py), c\<lparr>lru := (lru c)\<lparr>misses := misses (lru c) + 1\<rparr>\<rparr>, w)
      else (fst (wrapped c (env w) a k), c\<lparr>lru := (lru c)\<lparr>misses := misses (lru c) + 1\<rparr>\<rparr>,
            \<lparr>env = snd (wrapped c (env w) a k), invoked = invoked w @ [(a, k)]\<rparr>))"
  using wrapper_lru [OF nb, where py = py and a = a and k = k and w = w]
    user_function_eq [where c = c and py = py and ctx = "trace_context cfg" and a = a and k = k and w = w]
  by (simp add: lru_zero [OF z])

lemma wrapper_not_stored:
  assumes "(trace_context_in_key c \<and> check_tracer_leaks cfg) \<or> maxsize (lru c) = Some 0 \<or>
           map_of (cache_dict (lru c)) (cache_key py c (cfg, a, k)) = None"
  shows "hits (lru (fst (snd (wrapper py cfg c a k w)))) = hits (lru c) \<and>
         (\<forall>v. fst (wrapper py cfg c a k w) = Inr v \<longrightarrow>
            fst (wrapped c (env w) a k) = Inr v \<and>
            snd (snd (wrapper py cfg c a k w)) =
              \<lparr>env = snd (wrapped c (env w) a k), invoked = invoked w @ [(a, k)]\<rparr>)"
proof (cases "trace_context_in_key c \<and> check_tracer_leaks cfg")
  case True
  then show ?thesis by (simp add: wrapper_bypass)
next
  case nb: False
  show ?thesis
  proof (cases "maxsize (lru c) \<noteq> Some 0 \<and> \<not> key_hashes py c (cfg, a, k)")
    case True
    with wrapper_unhashable [OF nb, of py a k w] show ?thesis by simp
  next
    case False
    with assms nb have "maxsize (lru c) = Some 0 \<or>
      (key_hashes py c (cfg, a, k) \<and>
       map_of (cache_dict (lru c)) (cache_key py c (cfg, a, k)) = None)" by blast
    from wrapper_miss [OF nb this, of w] show ?thesis
      by (cases "underscore_clash c k") simp_all
  qed
qed

lemma cache_clear_idem: "cache_clear (cache_clear c) = cache_clear c"
  by (simp add: cache_clear_def lru_cache_clear_def)

lemma cache_clear_fields:
  "cache_dict (lru (cache_clear c)) = [] \<and> hits (lru (cache_clear c)) = 0 \<and>
   misses (lru (cache_clear c)) = 0 \<and> maxsize (lru (cache_clear c)) = maxsize (lru c) \<and>
   wrapped (cache_clear c) = wrapped c \<and>
   trace_context_in_key (cache_clear c) = trace_context_in_key c"
  by (simp add: cache_clear_def lru_cache_clear_def)

lemma clear_each_live:
  "\<forall>h\<in>set hs. heap g h \<noteq> None \<Longrightarrow>
   clear_each hs g =
     Inr (g\<lparr>heap := \<lambda>h. if h \<in> set hs then map_option cache_clear (heap g h) else heap g h\<rparr>)"
proof (induction hs arbitrary: g)
  case Nil
  then show ?case by simp
next
  case (Cons h hs)
  then obtain c where c: "heap g h = Some c" by auto
  let ?g1 = "g\<lparr>heap := (heap g)(h \<mapsto> cache_clear c)\<rparr>"
  have at: "cache_clear_at h g = Inr ?g1" using c by (simp add: cache_clear_at_def)
  have live: "\<forall>h'\<in>set hs. heap ?g1 h' \<noteq> None" using Cons.prems by simp
  have "(\<lambda>x. if x \<in> set hs then map_option cache_clear (heap ?g1 x) else heap ?g1 x) =
        (\<lambda>x. if x \<in> set (h # hs) then map_option cache_clear (heap g x) else heap g x)"
    using c by (auto simp: fun_eq_iff cache_clear_idem)
  with Cons.IH [OF live] at show ?case by simp
qed

lemma wrap_MaxInt:
  "wrap (MaxInt n) in_key g = Inr c \<Longrightarrow>
   n < 2 ^ 63 \<and>
   c = \<lparr>wrapped = g, trace_context_in_key = in_key, lru = lru_init (Some (nat n))\<rparr>"
  by (auto simp: wrap_def lru_cache_def split: if_splits)

section \<open>The leak-check bypass\<close>

text \<open>
  C1 (as amended). For every cache built with \<^verbatim>\<open>trace_context_in_key=True\<close>: when
  \<^verbatim>\<open>config.check_tracer_leaks\<close> is set at call time, the call is exactly one
  invocation of the wrapped function on the caller's arguments, its result or exception is
  the call's, and the cache object (contents, recency order, hit count, miss count) is the
  one before the call.
\<close>

theorem check_tracer_leaks_bypass:
  assumes "trace_context_in_key c" and "check_tracer_leaks cfg"
  shows "wrapper py cfg c args kwargs w =
           (fst (wrapped c (env w) args kwargs), c,
            \<lparr>env = snd (wrapped c (env w) args kwargs),
             invoked = invoked w @ [(args, kwargs)]\<rparr>)"
  using assms by (simp add: wrapper_def invoke_def split: prod.splits)

theorem check_tracer_leaks_bypass_witness:
  "trace_context_in_key (projr (wrap (MaxInt 4096) True add_all)) \<and>
   check_tracer_leaks cfg_leaks \<and>
   wrapper cpython cfg_leaks (projr (wrap (MaxInt 4096) True add_all)) [PyInt 1] [] world0 =
     (Inr 1, projr (wrap (MaxInt 4096) True add_all), \<lparr>env = 1, invoked = [([PyInt 1], [])]\<rparr>)"
  using check_tracer_leaks_bypass
    [of "projr (wrap (MaxInt 4096) True add_all)" cfg_leaks cpython "[PyInt 1]" "[]" world0]
  by (simp add: run_simps)

text \<open>
  With \<^verbatim>\<open>trace_context_in_key=False\<close> the wrapper is the bare
  \<^verbatim>\<open>functools.lru_cache\<close>, which never looks at the flag: with the flag set, a call
  on a new cache is counted as a miss and its result is stored.
\<close>

theorem bypass_plain_counterexample:
  "check_tracer_leaks cfg_leaks \<and>
   cache_info (projr (wrap (MaxInt 4096) False add_all)) = (0, 0, Some 4096, 0) \<and>
   cache_info (fst (snd (wrapper cpython cfg_leaks
       (projr (wrap (MaxInt 4096) False add_all)) [PyInt 1] [] world0))) = (0, 1, Some 4096, 1)"
  by (simp add: run_simps)

section \<open>Memoization\<close>

text \<open>
  C3 (as amended). Take a cache built by the decorator and a sequence of calls, none of them
  bypassed by the leak-check flag, whose distinct keys do not exceed the capacity. Once a
  call with key \<open>K\<close> has returned normally with value \<open>v\<close>, every later call of the
  sequence with key \<open>K\<close> returns \<open>v\<close> and leaves the world as it was: the wrapped function
  is not invoked again, so it returns normally at most once per distinct key.
\<close>

theorem cache_memoizes:
  assumes c0: "wrap max_size in_key f = Inr c0"
    and fits: "case maxsize (lru c0) of None \<Rightarrow> True
               | Some m \<Rightarrow> card (cache_key py c0 ` set (pre @ call1 # mid @ [call2])) \<le> m"
    and nb: "\<forall>call\<in>set (pre @ call1 # mid @ [call2]). \<not> (in_key \<and> check_tracer_leaks (fst call))"
    and same: "cache_key py c0 call2 = cache_key py c0 call1"
    and r1: "run_calls py pre c0 w0 = (c1, w1)"
    and r2: "wrapper py (fst call1) c1 (fst (snd call1)) (snd (snd call1)) w1 = (Inr v, c2, w2)"
    and r3: "run_calls py mid c2 w2 = (c3, w3)"
  shows "fst (wrapper py (fst call2) c3 (fst (snd call2)) (snd (snd call2)) w3) = Inr v \<and>
         snd (snd (wrapper py (fst call2) c3 (fst (snd call2)) (snd (snd call2)) w3)) = w3"
proof -
  let ?S = "cache_key py c0 ` set (pre @ call1 # mid @ [call2])"
  from wrap_Inr [OF c0] obtain m where tc0: "trace_context_in_key c0 = in_key"
    and l0: "lru c0 = lru_init m" by auto
  have fin: "finite ?S" by simp
  have cap: "case m of None \<Rightarrow> True | Some n \<Rightarrow> card ?S \<le> n"
    using fits l0 by (simp add: lru_init_def)
  have inv0: "lru_inv ?S (lru c0)"
    unfolding l0 using fin cap by (rule lru_inv_init)
  have all: "\<forall>call\<in>set (pre @ call1 # mid @ [call2]). cache_key py c0 call \<in> ?S \<and>
           \<not> (trace_context_in_key c0 \<and> check_tracer_leaks (fst call))"
    using nb tc0 by blast
  have pre: "\<forall>call\<in>set pre. cache_key py c0 call \<in> ?S \<and>
           \<not> (trace_context_in_key c0 \<and> check_tracer_leaks (fst call))"
    using all by simp
  note i1 = run_calls_inv [OF inv0 pre r1]
  from i1 have tc1: "trace_context_in_key c1 = trace_context_in_key c0"
    and inv1: "lru_inv ?S (lru c1)" by simp_all
  have k1: "cache_key py c1 (fst call1, fst (snd call1), snd (snd call1)) \<in> ?S"
    using cache_key_cong [OF tc1, of py call1] by simp
  have nb1: "\<not> (trace_context_in_key c1 \<and> check_tracer_leaks (fst call1))"
    using all tc1 by simp
  note i2 = wrapper_step_inv [OF inv1 k1 nb1 r2]
  from i2 have tc2: "trace_context_in_key c2 = trace_context_in_key c0"
    and inv2: "lru_inv ?S (lru c2)"
    and st2: "map_of (cache_dict (lru c2)) (cache_key py c0 call1) = Some v"
    using tc1 cache_key_cong [OF tc1, of py call1] by simp_all
  from inv1 k1 have nz1: "maxsize (lru c1) \<noteq> Some 0" by (rule lru_inv_nonzero)
  from wrapper_stores [OF nb1 nz1 r2]
  have "key_hashes py c1 (fst call1, fst (snd call1), snd (snd call1))" by simp
  then have kh1: "key_hashes py c0 call1" using key_hashes_cong [OF tc1, of py call1] by simp
  have mid: "\<forall>call\<in>set mid. cache_key py c2 call \<in> ?S \<and>
           \<not> (trace_context_in_key c2 \<and> check_tracer_leaks (fst call))"
    using all tc2 by (simp add: cache_key_cong [OF tc2])
  note i3 = run_calls_inv [OF inv2 mid r3]
  from i3 st2 have tc3: "trace_context_in_key c3 = trace_context_in_key c0"
    and inv3: "lru_inv ?S (lru c3)"
    and st3: "map_of (cache_dict (lru c3)) (cache_key py c0 call1) = Some v"
    using tc2 by simp_all
  have hit: "map_of (cache_dict (lru c3))
               (cache_key py c3 (fst call2, fst (snd call2), snd (snd call2))) = Some v"
    using st3 same cache_key_cong [OF tc3, of py call2] by simp
  have "key_hashes py c0 call2" using cache_key_hashes [OF same] kh1 by simp
  then have kh: "key_hashes py c3 (fst call2, fst (snd call2), snd (snd call2))"
    using key_hashes_cong [OF tc3, of py call2] by simp
  have "cache_key py c0 call2 \<in> ?S" by simp
  with inv3 have nz: "maxsize (lru c3) \<noteq> Some 0" by (rule lru_inv_nonzero)
  have nb3: "\<not> (trace_context_in_key c3 \<and> check_tracer_leaks (fst call2))"
    using all tc3 by simp
  from wrapper_hit [OF nb3 nz hit kh] show ?thesis by simp
qed

theorem cache_memoizes_witness:
  "wrap (MaxInt 2) True add_all = Inr (projr (wrap (MaxInt 2) True add_all)) \<and>
   cache_key cpython (projr (wrap (MaxInt 2) True add_all)) (cfg0, [PyInt 1], []) =
     HashedSeq [Val (PyTuple []), Val (PyInt 1)] \<and>
   fst (wrapper cpython cfg0
     (fst (run_calls cpython [(cfg0, [PyInt 1], []), (cfg0, [PyInt 2], [])]
        (projr (wrap (MaxInt 2) True add_all)) world0)) [PyInt 1] []
     (snd (run_calls cpython [(cfg0, [PyInt 1], []), (cfg0, [PyInt 2], [])]
        (projr (wrap (MaxInt 2) True add_all)) world0))) = Inr 1 \<and>
   invoked (snd (snd (wrapper cpython cfg0
     (fst (run_calls cpython [(cfg0, [PyInt 1], []), (cfg0, [PyInt 2], [])]
        (projr (wrap (MaxInt 2) True add_all)) world0)) [PyInt 1] []
     (snd (run_calls cpython [(cfg0, [PyInt 1], []), (cfg0, [PyInt 2], [])]
        (projr (wrap (MaxInt 2) True add_all)) world0))))) = [([PyInt 1], []), ([PyInt 2], [])]"
  using cache_memoizes [of "MaxInt 2" True add_all "projr (wrap (MaxInt 2) True add_all)"
      cpython "[]" "(cfg0, [PyInt 1], [])" "[(cfg0, [PyInt 2], [])]" "(cfg0, [PyInt 1], [])"
      world0 "projr (wrap (MaxInt 2) True add_all)" world0 1
      "fst (snd (wrapper cpython cfg0 (projr (wrap (MaxInt 2) True add_all)) [PyInt 1] [] world0))"
      "snd (snd (wrapper cpython cfg0 (projr (wrap (MaxInt 2) True add_all)) [PyInt 1] [] world0))"
      "fst (run_calls cpython [(cfg0, [PyInt 1], []), (cfg0, [PyInt 2], [])]
        (projr (wrap (MaxInt 2) True add_all)) world0)"
      "snd (run_calls cpython [(cfg0, [PyInt 1], []), (cfg0, [PyInt 2], [])]
        (projr (wrap (MaxInt 2) True add_all)) world0)"]
  by (simp add: run_simps cache_key_def)

text \<open>
  The claim as written fails where nothing is stored: a wrapped function that raises is
  invoked again by the next call with the same key, and so is one called while the
  leak-check flag is set. Both runs have a single key, in a cache of capacity 2.
\<close>

theorem memoize_raise_or_bypass_counterexample:
  "card (cache_key cpython (projr (wrap (MaxInt 2) True add_all)) `
      set [(cfg0, [PyInt (- 1)], []), (cfg0, [PyInt (- 1)], [])]) \<le> 2 \<and>
   invoked (snd (run_calls cpython [(cfg0, [PyInt (- 1)], []), (cfg0, [PyInt (- 1)], [])]
      (projr (wrap (MaxInt 2) True add_all)) world0)) = [([PyInt (- 1)], []), ([PyInt (- 1)], [])] \<and>
   card (cache_key cpython (projr (wrap (MaxInt 2) True add_all)) `
      set [(cfg_leaks, [PyInt 1], []), (cfg_leaks, [PyInt 1], [])]) \<le> 2 \<and>
   invoked (snd (run_calls cpython [(cfg_leaks, [PyInt 1], []), (cfg_leaks, [PyInt 1], [])]
      (projr (wrap (MaxInt 2) True add_all)) world0)) = [([PyInt 1], []), ([PyInt 1], [])]"
  by (simp add: run_simps cache_key_def)

section \<open>The lookup key\<close>

text \<open>
  \<^verbatim>\<open>f(1)\<close> and \<^verbatim>\<open>f(True)\<close> have different keys although \<^verbatim>\<open>1 == True\<close>:
  the first is the bare \<^verbatim>\<open>int\<close>, the second a sequence of one element. Inside a
  sequence the two are one value: \<^verbatim>\<open>f(1, 2)\<close> and \<^verbatim>\<open>f(True, 2)\<close> have one key.
\<close>

lemma key_of_examples:
  "key_of cpython [PyInt 1] [] = Fast (PyInt 1)"
  "key_of cpython [PyBool True] [] = HashedSeq [Val (PyInt 1)]"
  "key_of cpython [PyInt 1, PyInt 2] [] = key_of cpython [PyBool True, PyInt 2] []"
  "make_key cpython [PyList [PyInt 1]] [] = Inl ''TypeError''"
  by (simp_all add: key_of_def key_tuple_def key_item_def make_key_def hashes_def cpython_def)

text \<open>
  C2 (as amended). The lookup key is built from the trace-context value (when
  \<^verbatim>\<open>trace_context_in_key\<close> is set), then the positional arguments, then, after a
  marker, the keyword arguments, name and value, in the order in which the caller passed
  them; a key of a single value whose exact type is \<^verbatim>\<open>int\<close> or \<^verbatim>\<open>str\<close> is that
  value itself. Two calls whose keys can be built build equal keys exactly when both or
  neither are of that single-value form, the values in front of the keyword arguments are
  pairwise \<^verbatim>\<open>==\<close>, and the keyword arguments have the same names in the same order
  with pairwise \<^verbatim>\<open>==\<close> values. On a cache whose capacity is not 0, a call that
  returned normally and was not bypassed by the leak-check flag is followed by a hit when
  the next call has the same key and is not bypassed either: that call returns the stored
  value and does not invoke the wrapped function.
\<close>

theorem cache_key_keeps_kwargs_order:
  assumes xs: "xs = (if trace_context_in_key c then [trace_context cfg] else []) @ a"
    and xs': "xs' = (if trace_context_in_key c then [trace_context cfg'] else []) @ a'"
  shows "cache_key py c (cfg, a, k) =
           (if fast_path py xs k then Fast (eq_class py (hd xs))
            else HashedSeq (map (key_item py) xs @
                            (if k \<noteq> [] then Kwd_mark # kwd_items py k else []))) \<and>
         (key_hashes py c (cfg, a, k) \<longrightarrow> key_hashes py c (cfg', a', k') \<longrightarrow>
           (cache_key py c (cfg, a, k) = cache_key py c (cfg', a', k') \<longleftrightarrow>
              fast_path py xs k = fast_path py xs' k' \<and>
              map (eq_class py) xs = map (eq_class py) xs' \<and>
              map fst k = map fst k' \<and>
              map (eq_class py \<circ> snd) k = map (eq_class py \<circ> snd) k')) \<and>
         (\<not> (trace_context_in_key c \<and> (check_tracer_leaks cfg \<or> check_tracer_leaks cfg')) \<longrightarrow>
          maxsize (lru c) \<noteq> Some 0 \<longrightarrow>
          wrapper py cfg c a k w = (Inr v, c', w') \<longrightarrow>
          cache_key py c (cfg', a', k') = cache_key py c (cfg, a, k) \<longrightarrow>
            fst (wrapper py cfg' c' a' k' w') = Inr v \<and>
            snd (snd (wrapper py cfg' c' a' k' w')) = w')"
proof (intro conjI impI)
  have x: "xs = (if trace_context_in_key c then trace_context cfg # a else a)"
    and x': "xs' = (if trace_context_in_key c then trace_context cfg' # a' else a')"
    using xs xs' by simp_all
  show "cache_key py c (cfg, a, k) =
           (if fast_path py xs k then Fast (eq_class py (hd xs))
            else HashedSeq (map (key_item py) xs @
                            (if k \<noteq> [] then Kwd_mark # kwd_items py k else [])))"
    unfolding cache_key_if x [symmetric] by (simp add: key_of_def key_tuple_def)
  assume "key_hashes py c (cfg, a, k)" and "key_hashes py c (cfg', a', k')"
  then have "hashes py xs k" and "hashes py xs' k'"
    unfolding key_hashes_if x [symmetric] x' [symmetric] by simp_all
  from key_of_eq_classes [OF this]
  show "cache_key py c (cfg, a, k) = cache_key py c (cfg', a', k') \<longleftrightarrow>
              fast_path py xs k = fast_path py xs' k' \<and>
              map (eq_class py) xs = map (eq_class py) xs' \<and>
              map fst k = map fst k' \<and>
              map (eq_class py \<circ> snd) k = map (eq_class py \<circ> snd) k'"
    unfolding cache_key_if x [symmetric] x' [symmetric] .
next
  assume nb: "\<not> (trace_context_in_key c \<and> (check_tracer_leaks cfg \<or> check_tracer_leaks cfg'))"
    and nz: "maxsize (lru c) \<noteq> Some 0"
    and step: "wrapper py cfg c a k w = (Inr v, c', w')"
    and same: "cache_key py c (cfg', a', k') = cache_key py c (cfg, a, k)"
  from nb have nb1: "\<not> (trace_context_in_key c \<and> check_tracer_leaks cfg)" by simp
  note s = wrapper_stores [OF nb1 nz step]
  from s have tc: "trace_context_in_key c' = trace_context_in_key c" by simp
  have nb2: "\<not> (trace_context_in_key c' \<and> check_tracer_leaks cfg')" using nb tc by simp
  have nz2: "maxsize (lru c') \<noteq> Some 0" using s nz by simp
  have hit: "map_of (cache_dict (lru c')) (cache_key py c' (cfg', a', k')) = Some v"
    using s same cache_key_cong [OF tc, of py "(cfg', a', k')"] by simp
  have kh: "key_hashes py c' (cfg', a', k')"
    using s cache_key_hashes [OF same] key_hashes_cong [OF tc, of py "(cfg', a', k')"] by simp
  from wrapper_hit [OF nb2 nz2 hit kh, of w']
  show "fst (wrapper py cfg' c' a' k' w') = Inr v"
    and "snd (snd (wrapper py cfg' c' a' k' w')) = w'" by simp_all
qed

theorem cache_key_keeps_kwargs_order_witness:
  "cache_key cpython cache2 (cfg0, [PyInt 5], [(''x'', PyInt 1), (''y'', PyInt 2)]) =
     HashedSeq [Val (PyTuple []), Val (PyInt 5), Kwd_mark,
                Kwd_name ''x'', Val (PyInt 1), Kwd_name ''y'', Val (PyInt 2)] \<and>
   key_hashes cpython cache2 (cfg0, [PyInt 5], [(''x'', PyInt 1), (''y'', PyInt 2)]) \<and>
   cache_key cpython cache2 (cfg0, [PyInt 5], [(''x'', PyInt 1), (''y'', PyInt 2)]) \<noteq>
     cache_key cpython cache2 (cfg0, [PyBool False, PyInt 5], [(''x'', PyInt 1), (''y'', PyInt 2)]) \<and>
   wrapper cpython cfg0 cache2 [PyInt 5] [(''x'', PyInt 1), (''y'', PyInt 2)] world0 =
     (Inr 8,
      cache2\<lparr>lru := \<lparr>cache_dict =
                 [(HashedSeq [Val (PyTuple []), Val (PyInt 5), Kwd_mark,
                              Kwd_name ''x'', Val (PyInt 1), Kwd_name ''y'', Val (PyInt 2)], 8)],
               hits = 0, misses = 1, full = False, maxsize = Some 2\<rparr>\<rparr>,
      \<lparr>env = 1, invoked = [([PyInt 5], [(''x'', PyInt 1), (''y'', PyInt 2)])]\<rparr>) \<and>
   fst (wrapper cpython cfg0
      (cache2\<lparr>lru := \<lparr>cache_dict =
                 [(HashedSeq [Val (PyTuple []), Val (PyInt 5), Kwd_mark,
                              Kwd_name ''x'', Val (PyInt 1), Kwd_name ''y'', Val (PyInt 2)], 8)],
               hits = 0, misses = 1, full = False, maxsize = Some 2\<rparr>\<rparr>)
      [PyInt 5] [(''x'', PyInt 1), (''y'', PyInt 2)]
      \<lparr>env = 1, invoked = [([PyInt 5], [(''x'', PyInt 1), (''y'', PyInt 2)])]\<rparr>) = Inr 8 \<and>
   snd (snd (wrapper cpython cfg0
      (cache2\<lparr>lru := \<lparr>cache_dict =
                 [(HashedSeq [Val (PyTuple []), Val (PyInt 5), Kwd_mark,
                              Kwd_name ''x'', Val (PyInt 1), Kwd_name ''y'', Val (PyInt 2)], 8)],
               hits = 0, misses = 1, full = False, maxsize = Some 2\<rparr>\<rparr>)
      [PyInt 5] [(''x'', PyInt 1), (''y'', PyInt 2)]
      \<lparr>env = 1, invoked = [([PyInt 5], [(''x'', PyInt 1), (''y'', PyInt 2)])]\<rparr>)) =
     \<lparr>env = 1, invoked = [([PyInt 5], [(''x'', PyInt 1), (''y'', PyInt 2)])]\<rparr>"
proof -
  let ?k = "[(''x'', PyInt 1), (''y'', PyInt 2)]"
  let ?K = "HashedSeq [Val (PyTuple []), Val (PyInt 5), Kwd_mark,
                       Kwd_name ''x'', Val (PyInt 1), Kwd_name ''y'', Val (PyInt 2)]"
  let ?c' = "cache2\<lparr>lru := \<lparr>cache_dict = [(?K, 8)],
               hits = 0, misses = 1, full = False, maxsize = Some 2\<rparr>\<rparr>"
  let ?w' = "\<lparr>env = 1, invoked = [([PyInt 5], ?k)]\<rparr> :: (py_value, nat) world"
  have xs: "[PyTuple [], PyInt 5] =
      (if trace_context_in_key cache2 then [trace_context cfg0] else []) @ [PyInt 5]"
    by (simp add: cache2_def cfg0_def)
  have ys: "[PyTuple [], PyBool False, PyInt 5] =
      (if trace_context_in_key cache2 then [trace_context cfg0] else []) @ [PyBool False, PyInt 5]"
    by (simp add: cache2_def cfg0_def)
  note t = cache_key_keeps_kwargs_order [OF xs xs, where py = cpython and k = ?k and k' = ?k
      and w = world0 and v = 8 and c' = ?c' and w' = ?w']
  note u = cache_key_keeps_kwargs_order [OF xs ys, where py = cpython and k = ?k and k' = ?k]
  have kh: "key_hashes cpython cache2 (cfg0, [PyInt 5], ?k)"
    by (simp add: key_hashes_def hashes_def cache2_def cfg0_def cpython_def)
  have kh': "key_hashes cpython cache2 (cfg0, [PyBool False, PyInt 5], ?k)"
    by (simp add: key_hashes_def hashes_def cache2_def cfg0_def cpython_def)
  have 1: "cache_key cpython cache2 (cfg0, [PyInt 5], ?k) = ?K"
    using t [THEN conjunct1] by (simp add: key_item_def cpython_def)
  have 2: "cache_key cpython cache2 (cfg0, [PyInt 5], ?k) \<noteq>
            cache_key cpython cache2 (cfg0, [PyBool False, PyInt 5], ?k)"
    using u [THEN conjunct2, THEN conjunct1, rule_format, OF kh kh'] by simp
  have nb: "\<not> (trace_context_in_key cache2 \<and> (check_tracer_leaks cfg0 \<or> check_tracer_leaks cfg0))"
    by (simp add: cfg0_def)
  have nz: "maxsize (lru cache2) \<noteq> Some 0" by (simp add: cache2_def lru_init_def)
  have step: "wrapper cpython cfg0 cache2 [PyInt 5] ?k world0 = (Inr 8, ?c', ?w')"
    by (simp add: run_simps)
  from t [THEN conjunct2, THEN conjunct2, rule_format, OF nb nz step refl] kh 1 2 step
  show ?thesis by simp
qed

text \<open>
  \<^verbatim>\<open>f(x=1, y=2)\<close> followed by \<^verbatim>\<open>f(y=2, x=1)\<close>: the keyword arguments are
  equal as mappings, the keys differ, and the second call is a second miss that invokes the
  wrapped function again.
\<close>

theorem kwargs_order_counterexample:
  "map_of [(''x'', PyInt 1), (''y'', PyInt 2)] = map_of [(''y'', PyInt 2), (''x'', PyInt 1)] \<and>
   cache_key cpython (projr (wrap (MaxInt 4096) True add_all))
      (cfg0, [], [(''x'', PyInt 1), (''y'', PyInt 2)]) \<noteq>
   cache_key cpython (projr (wrap (MaxInt 4096) True add_all))
      (cfg0, [], [(''y'', PyInt 2), (''x'', PyInt 1)]) \<and>
   cache_info (fst (run_calls cpython
      [(cfg0, [], [(''x'', PyInt 1), (''y'', PyInt 2)]),
       (cfg0, [], [(''y'', PyInt 2), (''x'', PyInt 1)])]
      (projr (wrap (MaxInt 4096) True add_all)) world0)) = (0, 2, Some 4096, 2) \<and>
   invoked (snd (run_calls cpython
      [(cfg0, [], [(''x'', PyInt 1), (''y'', PyInt 2)]),
       (cfg0, [], [(''y'', PyInt 2), (''x'', PyInt 1)])]
      (projr (wrap (MaxInt 4096) True add_all)) world0)) =
     [([], [(''x'', PyInt 1), (''y'', PyInt 2)]), ([], [(''y'', PyInt 2), (''x'', PyInt 1)])]"
proof -
  have "map_of [(''x'', PyInt 1), (''y'', PyInt 2)] = map_of [(''y'', PyInt 2), (''x'', PyInt 1)]"
    by (auto simp: fun_eq_iff)
  then show ?thesis by (simp add: run_simps)
qed

section \<open>A wrapped function that raises\<close>

text \<open>
  C4 (as amended). A call of a cache built by the decorator that ends in an exception
  stores nothing: the stored entries, their recency order and the hit count are those
  before the call. If the wrapped function was invoked by that call, the exception is the
  one the wrapped function raised on the caller's arguments, and the miss count has grown
  by one (it has not when the call was bypassed by the leak-check flag). A subsequent call
  with the same key invokes the wrapped function again (after a bypassed call: a subsequent
  call that is bypassed as well).
\<close>

theorem raise_is_not_cached:
  assumes step: "wrapper py cfg c a k w = (Inl e, c', w')"
  shows "c' = c\<lparr>lru := (lru c)\<lparr>misses := misses (lru c')\<rparr>\<rparr> \<and>
         (invoked w' \<noteq> invoked w \<longrightarrow>
            fst (wrapped c (env w) a k) = Inl e \<and>
            w' = \<lparr>env = snd (wrapped c (env w) a k), invoked = invoked w @ [(a, k)]\<rparr> \<and>
            c' = c\<lparr>lru := (lru c)\<lparr>misses :=
                   (if trace_context_in_key c \<and> check_tracer_leaks cfg then misses (lru c)
                    else misses (lru c) + 1)\<rparr>\<rparr> \<and>
            (\<forall>cfg2 a2 k2 w2.
               (trace_context_in_key c \<and> check_tracer_leaks cfg \<longrightarrow> check_tracer_leaks cfg2) \<longrightarrow>
               cache_key py c (cfg2, a2, k2) = cache_key py c (cfg, a, k) \<longrightarrow>
                 fst (wrapper py cfg2 c' a2 k2 w2) = fst (wrapped c (env w2) a2 k2) \<and>
                 snd (snd (wrapper py cfg2 c' a2 k2 w2)) =
                   \<lparr>env = snd (wrapped c (env w2) a2 k2), invoked = invoked w2 @ [(a2, k2)]\<rparr>))"
proof (cases "trace_context_in_key c \<and> check_tracer_leaks cfg")
  case True
  with step have 1: "fst (wrapped c (env w) a k) = Inl e"
    and 2: "w' = \<lparr>env = snd (wrapped c (env w) a k), invoked = invoked w @ [(a, k)]\<rparr>"
    and 3: "c' = c"
    by (auto simp: wrapper_bypass)
  have 4: "fst (wrapper py cfg2 c' a2 k2 w2) = fst (wrapped c (env w2) a2 k2) \<and>
           snd (snd (wrapper py cfg2 c' a2 k2 w2)) =
             \<lparr>env = snd (wrapped c (env w2) a2 k2), invoked = invoked w2 @ [(a2, k2)]\<rparr>"
    if "check_tracer_leaks cfg2" for cfg2 a2 k2 w2
    using that True 3 by (simp add: wrapper_bypass)
  from 1 2 3 4 True show ?thesis by simp
next
  case nb: False
  show ?thesis
  proof (cases "maxsize (lru c) \<noteq> Some 0 \<and> \<not> key_hashes py c (cfg, a, k)")
    case True
    with wrapper_unhashable [OF nb, of py a k w] step show ?thesis by simp
  next
    case False
    have m: "maxsize (lru c) = Some 0 \<or>
      (key_hashes py c (cfg, a, k) \<and>
       map_of (cache_dict (lru c)) (cache_key py c (cfg, a, k)) = None)"
    proof (rule ccontr)
      assume n: "\<not> ?thesis"
      with False have nz: "maxsize (lru c) \<noteq> Some 0" and kh: "key_hashes py c (cfg, a, k)"
        by auto
      from n kh obtain v where "map_of (cache_dict (lru c)) (cache_key py c (cfg, a, k)) = Some v"
        by auto
      from wrapper_hit [OF nb nz this kh, of w] step show False by simp
    qed
    note s = wrapper_miss [OF nb m, of w]
    from s step have 3: "c' = c\<lparr>lru := (lru c)\<lparr>misses := misses (lru c) + 1\<rparr>\<rparr>" by simp
    have spec: "fst (wrapped c (env w) a k) = Inl e \<and>
            w' = \<lparr>env = snd (wrapped c (env w) a k), invoked = invoked w @ [(a, k)]\<rparr> \<and>
            (\<forall>cfg2 a2 k2 w2.
               cache_key py c (cfg2, a2, k2) = cache_key py c (cfg, a, k) \<longrightarrow>
                 fst (wrapper py cfg2 c' a2 k2 w2) = fst (wrapped c (env w2) a2 k2) \<and>
                 snd (snd (wrapper py cfg2 c' a2 k2 w2)) =
                   \<lparr>env = snd (wrapped c (env w2) a2 k2), invoked = invoked w2 @ [(a2, k2)]\<rparr>)"
      if inv: "invoked w' \<noteq> invoked w"
    proof -
      from s step inv have nc: "\<not> underscore_clash c k"
        by (cases "underscore_clash c k") simp_all
      with s step have 1: "fst (wrapped c (env w) a k) = Inl e"
        and 2: "w' = \<lparr>env = snd (wrapped c (env w) a k), invoked = invoked w @ [(a, k)]\<rparr>"
        by simp_all
      have 4: "fst (wrapper py cfg2 c' a2 k2 w2) = fst (wrapped c (env w2) a2 k2) \<and>
           snd (snd (wrapper py cfg2 c' a2 k2 w2)) =
             \<lparr>env = snd (wrapped c (env w2) a2 k2), invoked = invoked w2 @ [(a2, k2)]\<rparr>"
        if eq: "cache_key py c (cfg2, a2, k2) = cache_key py c (cfg, a, k)" for cfg2 a2 k2 w2
      proof (cases "trace_context_in_key c' \<and> check_tracer_leaks cfg2")
        case True
        then show ?thesis using 3 by (simp add: wrapper_bypass)
      next
        case nb2: False
        have tc: "trace_context_in_key c' = trace_context_in_key c" using 3 by simp
        from cache_key_names [OF eq] have "fst ` set k2 = fst ` set k" by (metis list.set_map)
        with nc tc have nc2: "\<not> underscore_clash c' k2" by (simp add: underscore_clash_def)
        have "maxsize (lru c') = Some 0 \<or>
          (key_hashes py c' (cfg2, a2, k2) \<and>
           map_of (cache_dict (lru c')) (cache_key py c' (cfg2, a2, k2)) = None)"
          using m eq 3 cache_key_cong [OF tc, of py "(cfg2, a2, k2)"]
            key_hashes_cong [OF tc, of py "(cfg2, a2, k2)"] cache_key_hashes [OF eq]
          by auto
        from wrapper_miss [OF nb2 this, of w2] nc2 3 show ?thesis by simp
      qed
      from 1 2 4 show ?thesis by blast
    qed
    from 3 spec nb show ?thesis by simp
  qed
qed

theorem raise_is_not_cached_witness:
  "wrapper cpython cfg0 (projr (wrap (MaxInt 4096) True add_all)) [PyInt (- 1)] [] world0 =
     (Inl ''ValueError'',
      (projr (wrap (MaxInt 4096) True add_all))
        \<lparr>lru := (lru (projr (wrap (MaxInt 4096) True add_all)))\<lparr>misses := 1\<rparr>\<rparr>,
      \<lparr>env = 1, invoked = [([PyInt (- 1)], [])]\<rparr>) \<and>
   invoked \<lparr>env = 1 :: nat, invoked = [([PyInt (- 1)], [])]\<rparr> \<noteq> invoked world0 \<and>
   cache_dict (lru ((projr (wrap (MaxInt 4096) True add_all))
        \<lparr>lru := (lru (projr (wrap (MaxInt 4096) True add_all)))\<lparr>misses := 1\<rparr>\<rparr>)) = [] \<and>
   snd (snd (wrapper cpython cfg0
      ((projr (wrap (MaxInt 4096) True add_all))
        \<lparr>lru := (lru (projr (wrap (MaxInt 4096) True add_all)))\<lparr>misses := 1\<rparr>\<rparr>)
      [PyInt (- 1)] [] \<lparr>env = 1, invoked = [([PyInt (- 1)], [])]\<rparr>)) =
     \<lparr>env = 2, invoked = [([PyInt (- 1)], []), ([PyInt (- 1)], [])]\<rparr>"
  using raise_is_not_cached [of cpython cfg0 "projr (wrap (MaxInt 4096) True add_all)"
      "[PyInt (- 1)]" "[]" world0 "''ValueError''"
      "(projr (wrap (MaxInt 4096) True add_all))
        \<lparr>lru := (lru (projr (wrap (MaxInt 4096) True add_all)))\<lparr>misses := 1\<rparr>\<rparr>"
      "\<lparr>env = 1, invoked = [([PyInt (- 1)], [])]\<rparr>"]
  by (simp add: run_simps)

text \<open>
  The state of the cache is not the one before the call: \<^verbatim>\<open>cache_info()\<close> reports
  one miss more after a call that raised.
\<close>

theorem raise_counts_a_miss_counterexample:
  "fst (wrapper cpython cfg0 (projr (wrap (MaxInt 4096) True add_all)) [PyInt (- 1)] [] world0) =
     Inl ''ValueError'' \<and>
   cache_info (projr (wrap (MaxInt 4096) True add_all)) = (0, 0, Some 4096, 0) \<and>
   cache_info (fst (snd (wrapper cpython cfg0 (projr (wrap (MaxInt 4096) True add_all))
       [PyInt (- 1)] [] world0))) = (0, 1, Some 4096, 0)"
  by (simp add: run_simps)

section \<open>Eviction\<close>

text \<open>
  C5 (as amended). Take a cache of capacity \<open>N\<close> built by the decorator and \<open>N + 1\<close> calls
  with pairwise distinct keys, none bypassed by the leak-check flag, each returning
  normally. Afterwards exactly the key of the first call, the least recently used one, is
  gone: the stored keys are those of the other \<open>N\<close> calls, oldest first. A call with the
  evicted key is a miss that invokes the wrapped function; a call with any other of the
  keys, made in that state and not bypassed, is a hit that leaves the world as it is.
\<close>

theorem lru_eviction:
  assumes c0: "wrap (MaxInt n) in_key g = Inr c0"
    and len: "length cs = nat n + 1"
    and dist: "distinct (map (cache_key py c0) cs)"
    and nb: "\<forall>call\<in>set cs. \<not> (in_key \<and> check_tracer_leaks (fst call))"
    and rn: "returns_normally py cs c0 w"
    and run: "run_calls py cs c0 w = (c', w')"
  shows "map fst (cache_dict (lru c')) = tl (map (cache_key py c0) cs) \<and>
         (\<forall>cfg a k w2. cache_key py c0 (cfg, a, k) = cache_key py c0 (hd cs) \<longrightarrow>
            fst (wrapper py cfg c' a k w2) = fst (g (env w2) a k) \<and>
            snd (snd (wrapper py cfg c' a k w2)) =
              \<lparr>env = snd (g (env w2) a k), invoked = invoked w2 @ [(a, k)]\<rparr>) \<and>
         (\<forall>cfg a k w2. \<not> (in_key \<and> check_tracer_leaks cfg) \<longrightarrow>
            cache_key py c0 (cfg, a, k) \<in> set (tl (map (cache_key py c0) cs)) \<longrightarrow>
            snd (snd (wrapper py cfg c' a k w2)) = w2 \<and>
            hits (lru (fst (snd (wrapper py cfg c' a k w2)))) = hits (lru c') + 1)"
proof -
  let ?m = "nat n"
  let ?keys = "map (cache_key py c0) cs"
  from wrap_MaxInt [OF c0] have ms: "maxsize (lru c0) = Some ?m"
    and k0: "map fst (cache_dict (lru c0)) = drop (length ([] :: 'b key list) - ?m) []"
    and f0: "?m \<noteq> 0 \<longrightarrow> full (lru c0) = (?m \<le> length ([] :: 'b key list))"
    and tc0: "trace_context_in_key c0 = in_key" and w0: "wrapped c0 = g"
    by (simp_all add: lru_init_def)
  have d: "distinct ([] @ ?keys)" using dist by simp
  have nbs: "\<forall>call\<in>set cs. \<not> (trace_context_in_key c0 \<and> check_tracer_leaks (fst call))"
    using nb tc0 by simp
  note r = run_calls_distinct [OF ms k0 f0 d nbs rn run]
  from r len have keys: "map fst (cache_dict (lru c')) = tl ?keys"
    by (simp add: drop_Suc)
  from r tc0 w0 have tc: "trace_context_in_key c' = trace_context_in_key c0"
    and tcin: "trace_context_in_key c' = in_key" and wr: "wrapped c' = g"
    and ms': "maxsize (lru c') = Some ?m" by simp_all
  from r have ok: "\<forall>call\<in>set cs. \<not> underscore_clash c0 (snd (snd call)) \<and>
            (?m \<noteq> 0 \<longrightarrow> key_hashes py c0 call)" by simp
  have kc: "cache_key py c' call = cache_key py c0 call" for call
    using cache_key_cong [OF tc] .
  have kh: "key_hashes py c' call = key_hashes py c0 call" for call
    using key_hashes_cong [OF tc] .
  from len obtain call rest where cs: "cs = call # rest" by (cases cs) simp_all
  obtain cfg0 a0 k0 where call: "call = (cfg0, a0, k0)" by (cases call)
  have 1: "fst (wrapper py cfg c' a k w2) = fst (g (env w2) a k) \<and>
           snd (snd (wrapper py cfg c' a k w2)) =
             \<lparr>env = snd (g (env w2) a k), invoked = invoked w2 @ [(a, k)]\<rparr>"
    if eq: "cache_key py c0 (cfg, a, k) = cache_key py c0 (hd cs)" for cfg a k w2
  proof (cases "trace_context_in_key c' \<and> check_tracer_leaks cfg")
    case True
    then show ?thesis using wr by (simp add: wrapper_bypass)
  next
    case nb': False
    from eq cs dist have "cache_key py c0 (cfg, a, k) \<notin> set (tl ?keys)" by simp
    with keys have "cache_key py c' (cfg, a, k) \<notin> fst ` set (cache_dict (lru c'))"
      by (metis kc list.set_map)
    then have none: "map_of (cache_dict (lru c')) (cache_key py c' (cfg, a, k)) = None"
      by (simp add: map_of_eq_None_iff)
    from eq cs call have eq': "cache_key py c0 (cfg, a, k) = cache_key py c0 (cfg0, a0, k0)"
      by simp
    from cache_key_names [OF eq'] have "fst ` set k = fst ` set k0"
      by (metis list.set_map)
    moreover from ok cs call have "\<not> underscore_clash c0 k0" by simp
    ultimately have nc: "\<not> underscore_clash c' k" using tc by (simp add: underscore_clash_def)
    have "?m \<noteq> 0 \<longrightarrow> key_hashes py c' (cfg, a, k)"
      using ok cs call cache_key_hashes [OF eq'] kh by simp
    with ms' none have "maxsize (lru c') = Some 0 \<or>
      (key_hashes py c' (cfg, a, k) \<and>
       map_of (cache_dict (lru c')) (cache_key py c' (cfg, a, k)) = None)"
      by (cases "?m = 0") simp_all
    from wrapper_miss [OF nb' this, of w2] nc wr show ?thesis by simp
  qed
  have 2: "snd (snd (wrapper py cfg c' a k w2)) = w2 \<and>
           hits (lru (fst (snd (wrapper py cfg c' a k w2)))) = hits (lru c') + 1"
    if nbc: "\<not> (in_key \<and> check_tracer_leaks cfg)"
      and mem: "cache_key py c0 (cfg, a, k) \<in> set (tl ?keys)" for cfg a k w2
  proof -
    from mem keys have "cache_key py c' (cfg, a, k) \<in> fst ` set (cache_dict (lru c'))"
      by (metis kc list.set_map)
    then obtain v where hit: "map_of (cache_dict (lru c')) (cache_key py c' (cfg, a, k)) = Some v"
      using map_of_eq_None_iff [of "cache_dict (lru c')" "cache_key py c' (cfg, a, k)"] by auto
    from mem cs len have m0: "?m \<noteq> 0" by (cases rest) auto
    with ms' have nz: "maxsize (lru c') \<noteq> Some 0" by simp
    from nbc tcin have nb': "\<not> (trace_context_in_key c' \<and> check_tracer_leaks cfg)" by simp
    from mem cs obtain call' where in': "call' \<in> set cs"
      and eq': "cache_key py c0 (cfg, a, k) = cache_key py c0 call'" by auto
    from ok in' m0 have "key_hashes py c0 call'" by simp
    with cache_key_hashes [OF eq'] have kh': "key_hashes py c' (cfg, a, k)" using kh by simp
    from wrapper_hit [OF nb' nz hit kh', of w2] show ?thesis by simp
  qed
  from keys 1 2 show ?thesis by blast
qed

text \<open>
  Capacity 2 and the calls A, B, C: B and C are stored; from that state a query with A
  invokes \<open>add_all\<close> a fourth time, a query with B and a query with C do not invoke it.
\<close>

theorem lru_eviction_witness:
  "wrap (MaxInt 2) True add_all = Inr cache2 \<and>
   map fst (cache_dict (lru (fst (run_calls cpython [call_A, call_B, call_C] cache2 world0)))) =
     [cache_key cpython cache2 call_B, cache_key cpython cache2 call_C] \<and>
   invoked (snd (snd (wrapper cpython cfg0
       (fst (run_calls cpython [call_A, call_B, call_C] cache2 world0)) [PyInt 1] []
       (snd (run_calls cpython [call_A, call_B, call_C] cache2 world0))))) =
     [([PyInt 1], []), ([PyInt 2], []), ([PyInt 3], []), ([PyInt 1], [])] \<and>
   snd (snd (wrapper cpython cfg0
       (fst (run_calls cpython [call_A, call_B, call_C] cache2 world0)) [PyInt 2] []
       (snd (run_calls cpython [call_A, call_B, call_C] cache2 world0)))) =
     snd (run_calls cpython [call_A, call_B, call_C] cache2 world0) \<and>
   snd (snd (wrapper cpython cfg0
       (fst (run_calls cpython [call_A, call_B, call_C] cache2 world0)) [PyInt 3] []
       (snd (run_calls cpython [call_A, call_B, call_C] cache2 world0)))) =
     snd (run_calls cpython [call_A, call_B, call_C] cache2 world0)"
  using lru_eviction [of 2 True add_all cache2 "[call_A, call_B, call_C]" cpython world0
      "fst (run_calls cpython [call_A, call_B, call_C] cache2 world0)"
      "snd (run_calls cpython [call_A, call_B, call_C] cache2 world0)"]
  by (simp add: run_simps)

text \<open>
  The claim as written fails when one of the calls raises: with capacity 2, after three
  calls with distinct keys the last of which raises, nothing has been evicted and a query
  with the first key is a hit.
\<close>

theorem eviction_after_raise_counterexample:
  "wrap (MaxInt 2) True add_all = Inr cache2 \<and>
   distinct (map (cache_key cpython cache2) [call_A, call_B, call_raising]) \<and>
   map fst (cache_dict (lru (fst (run_calls cpython [call_A, call_B, call_raising] cache2 world0)))) =
     [cache_key cpython cache2 call_A, cache_key cpython cache2 call_B] \<and>
   wrapper cpython cfg0
       (fst (run_calls cpython [call_A, call_B, call_raising] cache2 world0)) [PyInt 1] []
       (snd (run_calls cpython [call_A, call_B, call_raising] cache2 world0)) =
     (Inr 1,
      cache2\<lparr>lru := \<lparr>cache_dict = [(cache_key cpython cache2 call_B, 2),
                                     (cache_key cpython cache2 call_A, 1)],
                       hits = 1, misses = 3, full = True, maxsize = Some 2\<rparr>\<rparr>,
      snd (run_calls cpython [call_A, call_B, call_raising] cache2 world0))"
  by (simp add: run_simps)

section \<open>The capacity given at construction\<close>

text \<open>
  C7 (as amended). Constructing a cache with a negative \<^verbatim>\<open>max_size\<close> does not fail:
  \<^verbatim>\<open>functools.lru_cache\<close> treats it as capacity 0, the wrapper is produced and
  registered, and every call of it that is not bypassed counts a miss, stores nothing and
  invokes the wrapped function, whose result or exception is the call's; the one call that
  does not reach the wrapped function is a call of a wrapper with the trace context in its
  keys that passes a keyword argument named \<^verbatim>\<open>_\<close>, which ends in a
  \<^verbatim>\<open>TypeError\<close>. A \<^verbatim>\<open>max_size\<close> that is neither an integer nor
  \<^verbatim>\<open>None\<close> nor a callable is rejected with a \<^verbatim>\<open>TypeError\<close>, and an integer
  from \<open>2 ^ 63\<close> on with an \<^verbatim>\<open>OverflowError\<close>, when the decorator is applied to the
  function, and then no wrapper is produced or registered.
\<close>

theorem negative_max_size_is_capacity_zero:
  fixes g :: "('a, 'w, 'e, 'r) pyfun" and py :: "('a, 'b, 'e) python"
    and s :: "('a, 'b, 'w, 'e, 'r) jax_state"
  assumes "n < 0"
  shows "wrap (MaxInt n) in_key g =
           (Inr \<lparr>wrapped = g, trace_context_in_key = in_key, lru = lru_init (Some 0)\<rparr>
              :: error + ('a, 'b, 'w, 'e, 'r) cache_obj) \<and>
         cache (MaxInt n) in_key g str_g s =
           Inr (next_handle s,
                s\<lparr>heap := (heap s)(next_handle s \<mapsto>
                       \<lparr>wrapped = g, trace_context_in_key = in_key, lru = lru_init (Some 0)\<rparr>),
                  next_handle := next_handle s + 1,
                  caches := AList.update (next_handle s) str_g (caches s)\<rparr>) \<and>
         (\<forall>c cfg a k w. wrapped c = g \<longrightarrow> maxsize (lru c) = Some 0 \<longrightarrow>
            \<not> (trace_context_in_key c \<and> check_tracer_leaks cfg) \<longrightarrow>
            wrapper py cfg c a k w =
              (if underscore_clash c k
               then (Inl (type_error py), c\<lparr>lru := (lru c)\<lparr>misses := misses (lru c) + 1\<rparr>\<rparr>, w)
               else (fst (g (env w) a k), c\<lparr>lru := (lru c)\<lparr>misses := misses (lru c) + 1\<rparr>\<rparr>,
                     \<lparr>env = snd (g (env w) a k), invoked = invoked w @ [(a, k)]\<rparr>))) \<and>
         wrap MaxOther in_key g = (Inl TypeError :: error + ('a, 'b, 'w, 'e, 'r) cache_obj) \<and>
         cache MaxOther in_key g str_g s = Inl TypeError \<and>
         (\<forall>m. 2 ^ 63 \<le> m \<longrightarrow>
            wrap (MaxInt m) in_key g = (Inl OverflowError :: error + ('a, 'b, 'w, 'e, 'r) cache_obj) \<and>
            cache (MaxInt m) in_key g str_g s = Inl OverflowError)"
proof -
  have 1: "wrap (MaxInt n) in_key g =
           (Inr \<lparr>wrapped = g, trace_context_in_key = in_key, lru = lru_init (Some 0)\<rparr>
              :: error + ('a, 'b, 'w, 'e, 'r) cache_obj)"
    using assms by (simp add: wrap_def lru_cache_def)
  have 2: "cache (MaxInt n) in_key g str_g s =
           Inr (next_handle s,
                s\<lparr>heap := (heap s)(next_handle s \<mapsto>
                       \<lparr>wrapped = g, trace_context_in_key = in_key, lru = lru_init (Some 0)\<rparr>),
                  next_handle := next_handle s + 1,
                  caches := AList.update (next_handle s) str_g (caches s)\<rparr>)"
    by (simp add: cache_def 1 register_cache_def Let_def)
  have 3: "wrapper py cfg c a k w =
              (if underscore_clash c k
               then (Inl (type_error py), c\<lparr>lru := (lru c)\<lparr>misses := misses (lru c) + 1\<rparr>\<rparr>, w)
               else (fst (g (env w) a k), c\<lparr>lru := (lru c)\<lparr>misses := misses (lru c) + 1\<rparr>\<rparr>,
                     \<lparr>env = snd (g (env w) a k), invoked = invoked w @ [(a, k)]\<rparr>))"
    if "wrapped c = g" "maxsize (lru c) = Some 0"
      "\<not> (trace_context_in_key c \<and> check_tracer_leaks cfg)"
    for c :: "('a, 'b, 'w, 'e, 'r) cache_obj" and cfg a k w
    using wrapper_zero [OF that(2,3), of py a k w] that(1) by simp
  have 4: "wrap MaxOther in_key g = (Inl TypeError :: error + ('a, 'b, 'w, 'e, 'r) cache_obj)"
    by (simp add: wrap_def lru_cache_def)
  have 5: "cache MaxOther in_key g str_g s = Inl TypeError"
    by (simp add: cache_def 4)
  have 6: "wrap (MaxInt m) in_key g = (Inl OverflowError :: error + ('a, 'b, 'w, 'e, 'r) cache_obj)"
    if "2 ^ 63 \<le> m" for m
    using that by (simp add: wrap_def lru_cache_def)
  have 7: "cache (MaxInt m) in_key g str_g s = Inl OverflowError" if "2 ^ 63 \<le> m" for m
    by (simp add: cache_def 6 [OF that])
  from 1 2 3 4 5 6 7 show ?thesis by blast
qed

theorem negative_max_size_is_capacity_zero_witness:
  "(- 1 :: int) < 0 \<and>
   cache (MaxInt (- 1)) True add_all ''add_all'' jax0 =
     Inr (0, \<lparr>heap = (\<lambda>h. None)(0 \<mapsto>
                 \<lparr>wrapped = add_all, trace_context_in_key = True, lru = lru_init (Some 0)\<rparr>),
             caches = [(0, ''add_all'')], next_handle = 1\<rparr>) \<and>
   cache_info (fst (run_calls cpython [call_A, call_A]
      \<lparr>wrapped = add_all, trace_context_in_key = True, lru = lru_init (Some 0)\<rparr> world0)) =
     (0, 2, Some 0, 0) \<and>
   invoked (snd (run_calls cpython [call_A, call_A]
      \<lparr>wrapped = add_all, trace_context_in_key = True, lru = lru_init (Some 0)\<rparr> world0)) =
     [([PyInt 1], []), ([PyInt 1], [])] \<and>
   wrapper cpython cfg0
      \<lparr>wrapped = add_all, trace_context_in_key = True, lru = lru_init (Some 0)\<rparr>
      [PyInt 1] [(''_'', PyInt 2)] world0 =
     (Inl ''TypeError'',
      \<lparr>wrapped = add_all, trace_context_in_key = True,
       lru = \<lparr>cache_dict = [], hits = 0, misses = 1, full = False, maxsize = Some 0\<rparr>\<rparr>,
      world0) \<and>
   (2 ^ 63 \<le> (2 ^ 63 :: int) \<and>
    cache (MaxInt (2 ^ 63)) True add_all ''add_all'' jax0 = Inl OverflowError)"
  using negative_max_size_is_capacity_zero [of "- 1" True add_all "''add_all''" jax0 cpython]
  by (simp add: run_simps jax0_def)

text \<open>
  \<^verbatim>\<open>cache(max_size=-1)(add_all)\<close> on an empty registry: no error, and the registry
  holds the new wrapper, an empty cache of capacity 0.
\<close>

theorem negative_max_size_counterexample:
  "wrap (MaxInt (- 1)) True add_all \<noteq>
     (Inl TypeError :: error + (py_value, py_value, nat, string, int) cache_obj) \<and>
   cache (MaxInt (- 1)) True add_all ''add_all'' jax0 \<noteq> Inl TypeError \<and>
   cache (MaxInt (- 1)) True add_all ''add_all'' jax0 \<noteq> Inl OverflowError \<and>
   caches (snd (projr (cache (MaxInt (- 1)) True add_all ''add_all'' jax0))) = [(0, ''add_all'')] \<and>
   map_option cache_info
     (heap (snd (projr (cache (MaxInt (- 1)) True add_all ''add_all'' jax0))) 0) =
     Some (0, 0, Some 0, 0)"
  by (simp add: run_simps jax0_def cache_def register_cache_def)

section \<open>Equality and hash of \<^verbatim>\<open>HashableFunction\<close>\<close>

text \<open>
  C8 (as amended). A \<^verbatim>\<open>HashableFunction\<close> compares equal to another object if and
  only if that object is a \<^verbatim>\<open>HashableFunction\<close> too, the code objects of the two
  wrapped functions are equal and the closures are equal. The hash is the hash of the pair
  of code object and closure, computed from the hash of the code object and the hash of the
  closure, and it raises when the closure is unhashable; equal instances have equal hashes.
  Instances wrapping functions with different code objects are never equal, also when their
  closures are equal.
\<close>

theorem HashableFunction_eq_hash:
  "(HashableFunction_eq (f1, cl1) other \<longleftrightarrow>
      (\<exists>f2 cl2. other = HashableFunction f2 cl2 \<and> code f1 = code f2 \<and> cl1 = cl2)) \<and>
   HashableFunction_hash hash_code hash_closure tuple_hash (f1, cl1) =
     hash_pair hash_code hash_closure tuple_hash (code f1, cl1) \<and>
   (hash_closure cl1 = Some h \<longrightarrow>
      HashableFunction_hash hash_code hash_closure tuple_hash (f1, cl1) =
        Inr (tuple_hash [hash_code (code f1), h])) \<and>
   (hash_closure cl4 = None \<longrightarrow>
      HashableFunction_hash hash_code hash_closure tuple_hash (f1, cl4) = Inl TypeError) \<and>
   (HashableFunction_eq (f1, cl1) (HashableFunction f2 cl2 :: ('c, 'cl, 'o) py_object) \<longrightarrow>
      HashableFunction_hash hash_code hash_closure tuple_hash (f1, cl1) =
      HashableFunction_hash hash_code hash_closure tuple_hash (f2, cl2)) \<and>
   (code f1 \<noteq> code f3 \<longrightarrow>
      \<not> HashableFunction_eq (f1, cl1) (HashableFunction f3 cl1 :: ('c, 'cl, 'o) py_object))"
proof (intro conjI impI)
  show "HashableFunction_eq (f1, cl1) other \<longleftrightarrow>
      (\<exists>f2 cl2. other = HashableFunction f2 cl2 \<and> code f1 = code f2 \<and> cl1 = cl2)"
    by (cases other) simp_all
  show "HashableFunction_hash hash_code hash_closure tuple_hash (f1, cl1) =
     hash_pair hash_code hash_closure tuple_hash (code f1, cl1)"
    by (simp add: HashableFunction_hash_def)
next
  assume "hash_closure cl1 = Some h"
  then show "HashableFunction_hash hash_code hash_closure tuple_hash (f1, cl1) =
        Inr (tuple_hash [hash_code (code f1), h])"
    by (simp add: HashableFunction_hash_def hash_pair_def)
next
  assume "hash_closure cl4 = None"
  then show "HashableFunction_hash hash_code hash_closure tuple_hash (f1, cl4) = Inl TypeError"
    by (simp add: HashableFunction_hash_def hash_pair_def)
next
  assume "HashableFunction_eq (f1, cl1) (HashableFunction f2 cl2 :: ('c, 'cl, 'o) py_object)"
  then have "code f1 = code f2" and "cl1 = cl2" by simp_all
  then show "HashableFunction_hash hash_code hash_closure tuple_hash (f1, cl1) =
      HashableFunction_hash hash_code hash_closure tuple_hash (f2, cl2)"
    by (simp add: HashableFunction_hash_def)
next
  assume "code f1 \<noteq> code f3"
  then show "\<not> HashableFunction_eq (f1, cl1) (HashableFunction f3 cl1 :: ('c, 'cl, 'o) py_object)"
    by simp
qed

theorem HashableFunction_eq_hash_witness:
  "hash_value (PyTuple [PyInt 1]) = Some 2 \<and>
   HashableFunction_hash (\<lambda>c. int (length (fst c))) (\<lambda>cl. hash_value (PyTuple cl)) sum_list
     (lambda_sum, [PyInt 1]) = Inr 10 \<and>
   hash_value (PyTuple [PyList []]) = None \<and>
   HashableFunction_hash (\<lambda>c. int (length (fst c))) (\<lambda>cl. hash_value (PyTuple cl)) sum_list
     (lambda_sum, [PyList []]) = Inl TypeError \<and>
   HashableFunction_eq (lambda_sum, [PyInt 1])
     (HashableFunction lambda_sum [PyInt 1]
        :: (string \<times> nat \<times> int list, py_value list, unit) py_object) \<and>
   code lambda_sum \<noteq> code lambda_other \<and>
   \<not> HashableFunction_eq (lambda_sum, [PyInt 1])
     (HashableFunction lambda_other [PyInt 1]
        :: (string \<times> nat \<times> int list, py_value list, unit) py_object) \<and>
   \<not> HashableFunction_eq (lambda_sum, [PyInt 1])
     (OtherObject () :: (string \<times> nat \<times> int list, py_value list, unit) py_object)"
  using HashableFunction_eq_hash [where ?f1.0 = lambda_sum
      and ?cl1.0 = "[PyInt 1]" and ?f2.0 = lambda_sum
      and ?cl2.0 = "[PyInt 1]" and ?f3.0 = lambda_other and ?cl4.0 = "[PyList []]" and h = 2
      and other = "OtherObject () :: (string \<times> nat \<times> int list, py_value list, unit) py_object"
      and hash_code = "\<lambda>c. int (length (fst c))" and hash_closure = "\<lambda>cl. hash_value (PyTuple cl)"
      and tuple_hash = sum_list]
  by (simp add: hash_value_def hash_pair_def lambda_sum_def lambda_other_def)

text \<open>
  The claim as written fails for functions that differ in their text and compile to equal
  code objects: \<^verbatim>\<open>lambda: 1 + 1\<close> and \<^verbatim>\<open>lambda: 4 - 2\<close>, written at the same
  place of a file, are both folded to the constant 2. Wrapped with equal closures they
  compare equal and hash equal.
\<close>

theorem different_text_equal_code_counterexample:
  "source lambda_sum \<noteq> source lambda_diff \<and>
   HashableFunction_eq (lambda_sum, [PyInt 1])
     (HashableFunction lambda_diff [PyInt 1]
        :: (string \<times> nat \<times> int list, py_value list, unit) py_object) \<and>
   HashableFunction_hash (\<lambda>c. int (length (fst c))) (\<lambda>cl. hash_value (PyTuple cl)) sum_list
     (lambda_sum, [PyInt 1]) =
   HashableFunction_hash (\<lambda>c. int (length (fst c))) (\<lambda>cl. hash_value (PyTuple cl)) sum_list
     (lambda_diff, [PyInt 1])"
  by (simp add: lambda_sum_def lambda_diff_def HashableFunction_hash_def)

section \<open>Equality and hash of \<^verbatim>\<open>HashableWrapper\<close>\<close>

text \<open>
  C9. When hashing the wrapped value succeeds at construction, the wrapper's hash is that
  hash and the wrapper equals another wrapper exactly when the wrapped values are equal.
  When hashing raises, the wrapper's hash is the identity of the wrapped object and the
  wrapper equals another wrapper exactly when both wrap the same object: wrappers around
  two distinct unhashable objects are never equal, whatever their contents. A wrapper never
  equals an object that is not a \<^verbatim>\<open>HashableWrapper\<close>.
\<close>

theorem HashableWrapper_eq_hash:
  "(py_hash (val x1) = Some h \<longrightarrow>
      HashableWrapper_hash (HashableWrapper_init py_hash x1) = h \<and>
      (HashableWrapper_eq (HashableWrapper_init py_hash x1)
         (IsWrapper (HashableWrapper_init py_hash x2) :: ('v, 'o) wrapper_or_other) \<longleftrightarrow>
       val x1 = val x2)) \<and>
   (py_hash (val y1) = None \<longrightarrow>
      HashableWrapper_hash (HashableWrapper_init py_hash y1) = int (ident y1) \<and>
      (HashableWrapper_eq (HashableWrapper_init py_hash y1)
         (IsWrapper (HashableWrapper_init py_hash y2) :: ('v, 'o) wrapper_or_other) \<longleftrightarrow>
       ident y1 = ident y2) \<and>
      (ident y1 \<noteq> ident y2 \<longrightarrow>
         \<not> HashableWrapper_eq (HashableWrapper_init py_hash y1)
             (IsWrapper (HashableWrapper_init py_hash y2) :: ('v, 'o) wrapper_or_other))) \<and>
   \<not> HashableWrapper_eq (HashableWrapper_init py_hash x1) (NotWrapper other :: ('v, 'o) wrapper_or_other)"
  by (auto simp: HashableWrapper_init_def HashableWrapper_hash_def)

theorem HashableWrapper_eq_hash_witness:
  "hash_value (val \<lparr>ident = 1, val = PyTuple [PyInt 1]\<rparr>) = Some 2 \<and>
   HashableWrapper_hash (HashableWrapper_init hash_value \<lparr>ident = 1, val = PyTuple [PyInt 1]\<rparr>) = 2 \<and>
   HashableWrapper_eq (HashableWrapper_init hash_value \<lparr>ident = 1, val = PyTuple [PyInt 1]\<rparr>)
     (IsWrapper (HashableWrapper_init hash_value \<lparr>ident = 2, val = PyTuple [PyInt 1]\<rparr>)
        :: (py_value, unit) wrapper_or_other) \<and>
   hash_value (val \<lparr>ident = 1, val = PyList [PyInt 1]\<rparr>) = None \<and>
   HashableWrapper_hash (HashableWrapper_init hash_value \<lparr>ident = 1, val = PyList [PyInt 1]\<rparr>) = 1 \<and>
   ident \<lparr>ident = 1, val = PyList [PyInt 1]\<rparr> \<noteq> ident \<lparr>ident = 2, val = PyList [PyInt 1]\<rparr> \<and>
   \<not> HashableWrapper_eq (HashableWrapper_init hash_value \<lparr>ident = 1, val = PyList [PyInt 1]\<rparr>)
     (IsWrapper (HashableWrapper_init hash_value \<lparr>ident = 2, val = PyList [PyInt 1]\<rparr>)
        :: (py_value, unit) wrapper_or_other)"
  using HashableWrapper_eq_hash [where py_hash = hash_value
      and ?x1.0 = "\<lparr>ident = 1, val = PyTuple [PyInt 1]\<rparr>"
      and ?x2.0 = "\<lparr>ident = 2, val = PyTuple [PyInt 1]\<rparr>" and h = 2
      and ?y1.0 = "\<lparr>ident = 1, val = PyList [PyInt 1]\<rparr>"
      and ?y2.0 = "\<lparr>ident = 2, val = PyList [PyInt 1]\<rparr>" and other = "()"]
  by (simp add: hash_value_def)

section \<open>\<^verbatim>\<open>memoize\<close>\<close>

lemma context_in_key:
  assumes tc: "trace_context_in_key c" and kh: "key_hashes py c (cfg1, a, k)"
    and ne: "eq_class py (trace_context cfg1) \<noteq> eq_class py (trace_context cfg2)"
  shows "cache_key py c (cfg1, a, k) \<noteq> cache_key py c (cfg2, a, k)"
proof
  assume eq: "cache_key py c (cfg1, a, k) = cache_key py c (cfg2, a, k)"
  from cache_key_hashes [OF eq] kh have kh2: "key_hashes py c (cfg2, a, k)" by simp
  from kh kh2 tc have "hashes py (trace_context cfg1 # a) k"
    and "hashes py (trace_context cfg2 # a) k" by (simp_all add: key_hashes_if)
  from key_of_eq_classes [OF this] eq tc ne show False by (simp add: cache_key_if)
qed

lemma fresh_two_contexts:
  fixes c0 :: "('a, 'b, 'w, 'e, 'r) cache_obj"
  assumes c0: "c0 = \<lparr>wrapped = g, trace_context_in_key = True, lru = lru_init None\<rparr>"
    and ne: "eq_class py (trace_context cfg1) \<noteq> eq_class py (trace_context cfg2)"
    and kh1: "key_hashes py c0 (cfg1, a, k)" and kh2: "key_hashes py c0 (cfg2, a, k)"
    and nc: "''_'' \<notin> fst ` set k"
  shows "invoked (snd (run_calls py [(cfg1, a, k), (cfg2, a, k)] c0 w0)) =
           invoked w0 @ [(a, k), (a, k)]"
proof -
  have tc0: "trace_context_in_key c0" and d0: "cache_dict (lru c0) = []"
    and wr0: "wrapped c0 = g"
    using c0 by (simp_all add: lru_init_def)
  let ?k1 = "cache_key py c0 (cfg1, a, k)"
  let ?k2 = "cache_key py c0 (cfg2, a, k)"
  have kne: "?k2 \<noteq> ?k1" using context_in_key [OF tc0 kh1 ne] by simp
  obtain r1 c1 w1 where s1: "wrapper py cfg1 c0 a k w0 = (r1, c1, w1)"
    by (cases "wrapper py cfg1 c0 a k w0")
  from wrapper_preserves [of py cfg1 c0 a k w0] s1 tc0
  have tc1: "trace_context_in_key c1" and wr1: "wrapped c1 = wrapped c0" by simp_all
  have nc0: "\<not> underscore_clash c0 k" and nc1: "\<not> underscore_clash c1 k"
    using nc by (simp_all add: underscore_clash_def)
  have both: "invoked w1 = invoked w0 @ [(a, k)] \<and> map_of (cache_dict (lru c1)) ?k2 = None"
  proof (cases "check_tracer_leaks cfg1")
    case True
    from wrapper_bypass [OF tc0 True, of py a k w0] s1
    have "c1 = c0" and "invoked w1 = invoked w0 @ [(a, k)]" by auto
    with d0 show ?thesis by simp
  next
    case False
    then have nb: "\<not> (trace_context_in_key c0 \<and> check_tracer_leaks cfg1)" by simp
    have "maxsize (lru c0) = Some 0 \<or>
      (key_hashes py c0 (cfg1, a, k) \<and> map_of (cache_dict (lru c0)) ?k1 = None)"
      using kh1 d0 by simp
    from wrapper_miss [OF nb this, of w0] s1 nc0
    have a: "invoked w1 = invoked w0 @ [(a, k)]" by simp
    have inv0: "lru_inv {?k1} (lru c0)"
      unfolding c0 by (simp add: lru_inv_init)
    have key: "cache_key py c0 (cfg1, a, k) \<in> {?k1}" by simp
    from wrapper_step_inv [OF inv0 key nb s1]
    have "fst ` set (cache_dict (lru c1)) \<subseteq> {?k1}" by (simp add: lru_inv_def)
    with kne have "?k2 \<notin> fst ` set (cache_dict (lru c1))" by blast
    then have "map_of (cache_dict (lru c1)) ?k2 = None" by (simp add: map_of_eq_None_iff)
    with a show ?thesis by simp
  qed
  then have w1: "invoked w1 = invoked w0 @ [(a, k)]"
    and none: "map_of (cache_dict (lru c1)) ?k2 = None" by simp_all
  have tceq: "trace_context_in_key c1 = trace_context_in_key c0" using tc0 tc1 by simp
  have k2: "cache_key py c1 (cfg2, a, k) = ?k2" using cache_key_cong [OF tceq] .
  have h2: "key_hashes py c1 (cfg2, a, k)" using key_hashes_cong [OF tceq, of py] kh2 by simp
  have "invoked (snd (snd (wrapper py cfg2 c1 a k w1))) = invoked w1 @ [(a, k)]"
  proof (cases "check_tracer_leaks cfg2")
    case True
    from wrapper_bypass [OF tc1 True, of py a k w1] show ?thesis by simp
  next
    case False
    then have nb: "\<not> (trace_context_in_key c1 \<and> check_tracer_leaks cfg2)" by simp
    have "maxsize (lru c1) = Some 0 \<or>
      (key_hashes py c1 (cfg2, a, k) \<and>
       map_of (cache_dict (lru c1)) (cache_key py c1 (cfg2, a, k)) = None)"
      using h2 none k2 by simp
    from wrapper_miss [OF nb this, of w1] nc1 show ?thesis by simp
  qed
  with s1 w1 show ?thesis by (auto split: prod.splits)
qed

text \<open>
  C10 (as amended). \<^verbatim>\<open>memoize\<close> is \<^verbatim>\<open>cache(max_size=None)\<close> with
  \<^verbatim>\<open>trace_context_in_key\<close> at its default \<^verbatim>\<open>True\<close>: the wrapper it registers
  is unbounded and has the trace context in its keys, and stays so whatever calls are made.
  Calls with equal arguments under unequal trace contexts have unequal keys, when a key can
  be built, and two such calls on a new memoized function each invoke it when their keys
  can be built and no keyword argument is named \<^verbatim>\<open>_\<close>. While the leak-check flag is
  set, a memoized call is one direct invocation of the function and leaves the cache as it
  is.
\<close>

theorem memoize_keeps_trace_context:
  fixes g :: "('a, 'w, 'e, 'r) pyfun" and py :: "('a, 'b, 'e) python"
    and s :: "('a, 'b, 'w, 'e, 'r) jax_state"
  shows "memoize g str_g s = cache MaxNone True g str_g s \<and>
   memoize g str_g s =
     Inr (next_handle s,
          s\<lparr>heap := (heap s)(next_handle s \<mapsto>
                 \<lparr>wrapped = g, trace_context_in_key = True, lru = lru_init None\<rparr>),
            next_handle := next_handle s + 1,
            caches := AList.update (next_handle s) str_g (caches s)\<rparr>) \<and>
   (\<forall>cs w0 c w.
      run_calls py cs \<lparr>wrapped = g, trace_context_in_key = True, lru = lru_init None\<rparr> w0 = (c, w) \<longrightarrow>
        trace_context_in_key c \<and> maxsize (lru c) = None \<and>
        (\<forall>cfg1 cfg2 a k. key_hashes py c (cfg1, a, k) \<longrightarrow>
           eq_class py (trace_context cfg1) \<noteq> eq_class py (trace_context cfg2) \<longrightarrow>
           cache_key py c (cfg1, a, k) \<noteq> cache_key py c (cfg2, a, k)) \<and>
        (\<forall>cfg a k w1. check_tracer_leaks cfg \<longrightarrow>
           wrapper py cfg c a k w1 =
             (fst (g (env w1) a k), c,
              \<lparr>env = snd (g (env w1) a k), invoked = invoked w1 @ [(a, k)]\<rparr>))) \<and>
   (\<forall>cfg1 cfg2 a k w0.
      eq_class py (trace_context cfg1) \<noteq> eq_class py (trace_context cfg2) \<longrightarrow>
      list_all (is_hashable py) (trace_context cfg1 # trace_context cfg2 # a @ map snd k) \<longrightarrow>
      ''_'' \<notin> fst ` set k \<longrightarrow>
      invoked (snd (run_calls py [(cfg1, a, k), (cfg2, a, k)]
          (\<lparr>wrapped = g, trace_context_in_key = True, lru = lru_init None\<rparr>
             :: ('a, 'b, 'w, 'e, 'r) cache_obj) w0)) =
        invoked w0 @ [(a, k), (a, k)])"
proof -
  let ?c0 = "\<lparr>wrapped = g, trace_context_in_key = True, lru = lru_init None\<rparr>
               :: ('a, 'b, 'w, 'e, 'r) cache_obj"
  have 1: "memoize g str_g s = cache MaxNone True g str_g s" by (simp add: memoize_def)
  have 2: "cache MaxNone True g str_g s =
     Inr (next_handle s,
          s\<lparr>heap := (heap s)(next_handle s \<mapsto> ?c0),
            next_handle := next_handle s + 1,
            caches := AList.update (next_handle s) str_g (caches s)\<rparr>)"
    by (simp add: cache_def wrap_def lru_cache_def register_cache_def Let_def)
  have 3: "trace_context_in_key c \<and> maxsize (lru c) = None \<and>
        (\<forall>cfg1 cfg2 a k. key_hashes py c (cfg1, a, k) \<longrightarrow>
           eq_class py (trace_context cfg1) \<noteq> eq_class py (trace_context cfg2) \<longrightarrow>
           cache_key py c (cfg1, a, k) \<noteq> cache_key py c (cfg2, a, k)) \<and>
        (\<forall>cfg a k w1. check_tracer_leaks cfg \<longrightarrow>
           wrapper py cfg c a k w1 =
             (fst (g (env w1) a k), c,
              \<lparr>env = snd (g (env w1) a k), invoked = invoked w1 @ [(a, k)]\<rparr>))"
    if run: "run_calls py cs ?c0 w0 = (c, w)" for cs w0 c w
  proof -
    from run_calls_preserves [OF run]
    have tc: "trace_context_in_key c" and wr: "wrapped c = g" and ms: "maxsize (lru c) = None"
      by (simp_all add: lru_init_def)
    have k: "cache_key py c (cfg1, a, k) \<noteq> cache_key py c (cfg2, a, k)"
      if "key_hashes py c (cfg1, a, k)"
        and "eq_class py (trace_context cfg1) \<noteq> eq_class py (trace_context cfg2)"
      for cfg1 cfg2 a k
      using context_in_key [OF tc that] .
    have b: "wrapper py cfg c a k w1 =
             (fst (g (env w1) a k), c,
              \<lparr>env = snd (g (env w1) a k), invoked = invoked w1 @ [(a, k)]\<rparr>)"
      if "check_tracer_leaks cfg" for cfg a k w1
      using wrapper_bypass [OF tc that, of py a k w1] wr by simp
    from tc ms k b show ?thesis by blast
  qed
  have 4: "invoked (snd (run_calls py [(cfg1, a, k), (cfg2, a, k)] ?c0 w0)) =
        invoked w0 @ [(a, k), (a, k)]"
    if ne: "eq_class py (trace_context cfg1) \<noteq> eq_class py (trace_context cfg2)"
      and h: "list_all (is_hashable py) (trace_context cfg1 # trace_context cfg2 # a @ map snd k)"
      and nc: "''_'' \<notin> fst ` set k" for cfg1 cfg2 a k w0
  proof -
    from h have "key_hashes py ?c0 (cfg1, a, k)" and "key_hashes py ?c0 (cfg2, a, k)"
      by (simp_all add: key_hashes_def hashes_def)
    from fresh_two_contexts [OF refl ne this nc] show ?thesis .
  qed
  from 1 2 3 4 show ?thesis by (simp only: 1) blast
qed

theorem memoize_keeps_trace_context_witness:
  "memoize add_all ''add_all'' jax0 =
     Inr (0, \<lparr>heap = (\<lambda>h. None)(0 \<mapsto>
                 \<lparr>wrapped = add_all, trace_context_in_key = True, lru = lru_init None\<rparr>),
             caches = [(0, ''add_all'')], next_handle = 1\<rparr>) \<and>
   eq_class cpython (trace_context cfg0) \<noteq>
     eq_class cpython (trace_context
       \<lparr>check_tracer_leaks = False, trace_context = PyTuple [PyInt 7]\<rparr>) \<and>
   run_calls cpython
      [(cfg0, [PyInt 1], []),
       (\<lparr>check_tracer_leaks = False, trace_context = PyTuple [PyInt 7]\<rparr>, [PyInt 1], [])]
      \<lparr>wrapped = add_all, trace_context_in_key = True, lru = lru_init None\<rparr> world0 =
     (\<lparr>wrapped = add_all, trace_context_in_key = True,
       lru = \<lparr>cache_dict = [(HashedSeq [Val (PyTuple []), Val (PyInt 1)], 1),
                            (HashedSeq [Val (PyTuple [PyInt 7]), Val (PyInt 1)], 1)],
              hits = 0, misses = 2, full = False, maxsize = None\<rparr>\<rparr>,
      \<lparr>env = 2, invoked = [([PyInt 1], []), ([PyInt 1], [])]\<rparr>) \<and>
   invoked (snd (run_calls cpython
      [(cfg0, [PyInt 1], []),
       (\<lparr>check_tracer_leaks = False, trace_context = PyTuple [PyInt 7]\<rparr>, [PyInt 1], [])]
      (\<lparr>wrapped = add_all, trace_context_in_key = True, lru = lru_init None\<rparr>
         :: (py_value, py_value, nat, string, int) cache_obj) world0)) =
     invoked world0 @ [([PyInt 1], []), ([PyInt 1], [])] \<and>
   check_tracer_leaks cfg_leaks \<and>
   wrapper cpython cfg_leaks
      \<lparr>wrapped = add_all, trace_context_in_key = True,
       lru = \<lparr>cache_dict = [(HashedSeq [Val (PyTuple []), Val (PyInt 1)], 1),
                            (HashedSeq [Val (PyTuple [PyInt 7]), Val (PyInt 1)], 1)],
              hits = 0, misses = 2, full = False, maxsize = None\<rparr>\<rparr>
      [PyInt 1] [] \<lparr>env = 2, invoked = [([PyInt 1], []), ([PyInt 1], [])]\<rparr> =
     (Inr 1,
      \<lparr>wrapped = add_all, trace_context_in_key = True,
       lru = \<lparr>cache_dict = [(HashedSeq [Val (PyTuple []), Val (PyInt 1)], 1),
                            (HashedSeq [Val (PyTuple [PyInt 7]), Val (PyInt 1)], 1)],
              hits = 0, misses = 2, full = False, maxsize = None\<rparr>\<rparr>,
      \<lparr>env = 3, invoked = [([PyInt 1], []), ([PyInt 1], []), ([PyInt 1], [])]\<rparr>)"
proof -
  note t = memoize_keeps_trace_context [where g = add_all and s = jax0 and py = cpython
      and str_g = "''add_all''"]
  let ?c0 = "\<lparr>wrapped = add_all, trace_context_in_key = True, lru = lru_init None\<rparr>
               :: (py_value, py_value, nat, string, int) cache_obj"
  let ?cfg7 = "\<lparr>check_tracer_leaks = False, trace_context = PyTuple [PyInt 7]\<rparr>"
  let ?c2 = "\<lparr>wrapped = add_all, trace_context_in_key = True,
       lru = \<lparr>cache_dict = [(HashedSeq [Val (PyTuple []), Val (PyInt 1)], 1),
                            (HashedSeq [Val (PyTuple [PyInt 7]), Val (PyInt 1)], 1)],
              hits = 0, misses = 2, full = False, maxsize = None\<rparr>\<rparr>
               :: (py_value, py_value, nat, string, int) cache_obj"
  let ?w2 = "\<lparr>env = 2, invoked = [([PyInt 1], []), ([PyInt 1], [])]\<rparr> :: (py_value, nat) world"
  have a: "memoize add_all ''add_all'' jax0 =
     Inr (0, \<lparr>heap = (\<lambda>h. None)(0 \<mapsto> ?c0), caches = [(0, ''add_all'')], next_handle = 1\<rparr>)"
    using t [THEN conjunct2, THEN conjunct1] by (simp add: jax0_def)
  have ne: "eq_class cpython (trace_context cfg0) \<noteq> eq_class cpython (trace_context ?cfg7)"
    by (simp add: cfg0_def cpython_def)
  have run: "run_calls cpython [(cfg0, [PyInt 1], []), (?cfg7, [PyInt 1], [])] ?c0 world0 =
      (?c2, ?w2)"
    by (simp add: run_simps)
  have h: "list_all (is_hashable cpython)
      (trace_context cfg0 # trace_context ?cfg7 # [PyInt 1] @ map snd [])"
    by (simp add: cfg0_def cpython_def)
  have nc: "''_'' \<notin> fst ` set ([] :: py_value kwargs)" by simp
  have two: "invoked (snd (run_calls cpython [(cfg0, [PyInt 1], []), (?cfg7, [PyInt 1], [])]
      ?c0 world0)) = invoked world0 @ [([PyInt 1], []), ([PyInt 1], [])]"
    using t [THEN conjunct2, THEN conjunct2, THEN conjunct2, rule_format, OF ne h nc] .
  have lk: "check_tracer_leaks cfg_leaks" by (simp add: cfg_leaks_def)
  have b: "wrapper cpython cfg_leaks ?c2 [PyInt 1] [] ?w2 =
     (Inr 1, ?c2, \<lparr>env = 3, invoked = [([PyInt 1], []), ([PyInt 1], []), ([PyInt 1], [])]\<rparr>)"
    using t [THEN conjunct2, THEN conjunct2, THEN conjunct1, rule_format, OF run,
        THEN conjunct2, THEN conjunct2, THEN conjunct2, rule_format, OF lk, of "[PyInt 1]" "[]" ?w2]
    by (simp add: add_all_def)
  from a ne run two lk b show ?thesis by simp
qed

text \<open>
  The claim as written fails for calls that do not reach the memoized function. Two calls
  with the same unhashable argument under unequal trace contexts both end in the
  \<^verbatim>\<open>TypeError\<close> of hashing the key, and two calls that pass a keyword argument
  named \<^verbatim>\<open>_\<close> both end in the \<^verbatim>\<open>TypeError\<close> of \<^verbatim>\<open>cached\<close>, counted as
  two misses: in neither run is \<open>add_all\<close> invoked.
\<close>

theorem memoize_not_invoked_counterexample:
  "map_option cache_info (heap (snd (projr (memoize add_all ''add_all'' jax0))) 0) =
     Some (0, 0, None, 0) \<and>
   trace_context cfg0 \<noteq> PyTuple [PyInt 7] \<and>
   fst (wrapper cpython cfg0 (the (heap (snd (projr (memoize add_all ''add_all'' jax0))) 0))
      [PyList [PyInt 1]] [] world0) = Inl ''TypeError'' \<and>
   run_calls cpython
      [(cfg0, [PyList [PyInt 1]], []),
       (\<lparr>check_tracer_leaks = False, trace_context = PyTuple [PyInt 7]\<rparr>, [PyList [PyInt 1]], [])]
      (the (heap (snd (projr (memoize add_all ''add_all'' jax0))) 0)) world0 =
     (the (heap (snd (projr (memoize add_all ''add_all'' jax0))) 0), world0) \<and>
   invoked world0 = [] \<and>
   fst (wrapper cpython cfg0 (the (heap (snd (projr (memoize add_all ''add_all'' jax0))) 0))
      [PyInt 1] [(''_'', PyInt 2)] world0) = Inl ''TypeError'' \<and>
   run_calls cpython
      [(cfg0, [PyInt 1], [(''_'', PyInt 2)]),
       (\<lparr>check_tracer_leaks = False, trace_context = PyTuple [PyInt 7]\<rparr>,
        [PyInt 1], [(''_'', PyInt 2)])]
      (the (heap (snd (projr (memoize add_all ''add_all'' jax0))) 0)) world0 =
     (\<lparr>wrapped = add_all, trace_context_in_key = True,
       lru = \<lparr>cache_dict = [], hits = 0, misses = 2, full = False, maxsize = None\<rparr>\<rparr>,
      world0)"
proof -
  have m: "heap (snd (projr (memoize add_all ''add_all'' jax0))) 0 =
      Some (\<lparr>wrapped = add_all, trace_context_in_key = True, lru = lru_init None\<rparr>
         :: (py_value, py_value, nat, string, int) cache_obj)"
    by (simp add: memoize_def cache_def wrap_def lru_cache_def register_cache_def jax0_def)
  show ?thesis unfolding m by (simp add: run_simps)
qed

section \<open>\<^verbatim>\<open>clear_all_caches\<close>\<close>

lemma cleared_call:
  "hits (lru (fst (snd (wrapper py cfg (cache_clear c) a k w)))) = 0 \<and>
   (\<forall>v. fst (wrapper py cfg (cache_clear c) a k w) = Inr v \<longrightarrow>
      fst (wrapped c (env w) a k) = Inr v \<and>
      snd (snd (wrapper py cfg (cache_clear c) a k w)) =
        \<lparr>env = snd (wrapped c (env w) a k), invoked = invoked w @ [(a, k)]\<rparr>) \<and>
   (\<not> (trace_context_in_key c \<and> check_tracer_leaks cfg) \<longrightarrow> key_hashes py c (cfg, a, k) \<longrightarrow>
      misses (lru (fst (snd (wrapper py cfg (cache_clear c) a k w)))) = 1)"
proof -
  note f = cache_clear_fields [of c]
  have none: "map_of (cache_dict (lru (cache_clear c)))
                (cache_key py (cache_clear c) (cfg, a, k)) = None"
    using f by simp
  then have "(trace_context_in_key (cache_clear c) \<and> check_tracer_leaks cfg) \<or>
      maxsize (lru (cache_clear c)) = Some 0 \<or>
      map_of (cache_dict (lru (cache_clear c))) (cache_key py (cache_clear c) (cfg, a, k)) = None"
    by simp
  from wrapper_not_stored [OF this, of w] f
  have 1: "hits (lru (fst (snd (wrapper py cfg (cache_clear c) a k w)))) = 0"
    and 2: "\<forall>v. fst (wrapper py cfg (cache_clear c) a k w) = Inr v \<longrightarrow>
      fst (wrapped c (env w) a k) = Inr v \<and>
      snd (snd (wrapper py cfg (cache_clear c) a k w)) =
        \<lparr>env = snd (wrapped c (env w) a k), invoked = invoked w @ [(a, k)]\<rparr>"
    by simp_all
  have 3: "misses (lru (fst (snd (wrapper py cfg (cache_clear c) a k w)))) = 1"
    if nb: "\<not> (trace_context_in_key c \<and> check_tracer_leaks cfg)"
      and kh: "key_hashes py c (cfg, a, k)"
  proof -
    from f have tc: "trace_context_in_key (cache_clear c) = trace_context_in_key c" by simp
    from nb tc have nb': "\<not> (trace_context_in_key (cache_clear c) \<and> check_tracer_leaks cfg)"
      by simp
    from kh key_hashes_cong [OF tc, of py "(cfg, a, k)"] none
    have "maxsize (lru (cache_clear c)) = Some 0 \<or>
      (key_hashes py (cache_clear c) (cfg, a, k) \<and>
       map_of (cache_dict (lru (cache_clear c))) (cache_key py (cache_clear c) (cfg, a, k)) = None)"
      by simp
    from wrapper_miss [OF nb' this, of w] f show ?thesis by simp
  qed
  from 1 2 3 show ?thesis by blast
qed

text \<open>
  C6. \<^verbatim>\<open>clear_all_caches\<close> goes through the handles of the registry that are still
  alive and calls \<^verbatim>\<open>cache_clear\<close> on each. It never fails, in whatever state the
  registry is. Afterwards every registered cache that is alive is empty, with its counters
  at zero, so that no call of it is a hit: a call that returns a value has invoked the
  wrapped function for it, and a call that is not bypassed by the leak-check flag and whose
  key can be built is counted as a miss. A handle whose object is gone stays gone, and a
  collected object is not among the keys the sweep visits.
\<close>

theorem clear_all_caches_clears_live:
  "clear_all_caches g =
     Inr (g\<lparr>heap := \<lambda>h. if h \<in> set (caches_keys g) then map_option cache_clear (heap g h)
                          else heap g h\<rparr>) \<and>
   (h \<in> fst ` set (caches g) \<longrightarrow> heap g h = Some c \<longrightarrow>
      heap (projr (clear_all_caches g)) h = Some (cache_clear c) \<and>
      cache_info (cache_clear c) = (0, 0, maxsize (lru c), 0) \<and>
      cache_dict (lru (cache_clear c)) = [] \<and>
      hits (lru (fst (snd (wrapper py cfg (cache_clear c) a k w)))) = 0 \<and>
      (\<forall>v. fst (wrapper py cfg (cache_clear c) a k w) = Inr v \<longrightarrow>
         fst (wrapped c (env w) a k) = Inr v \<and>
         snd (snd (wrapper py cfg (cache_clear c) a k w)) =
           \<lparr>env = snd (wrapped c (env w) a k), invoked = invoked w @ [(a, k)]\<rparr>) \<and>
      (\<not> (trace_context_in_key c \<and> check_tracer_leaks cfg) \<longrightarrow>
       key_hashes py c (cfg, a, k) \<longrightarrow>
         misses (lru (fst (snd (wrapper py cfg (cache_clear c) a k w)))) = 1)) \<and>
   (heap g h' = None \<longrightarrow> heap (projr (clear_all_caches g)) h' = None) \<and>
   heap (collect h'' g) h'' = None \<and> h'' \<notin> set (caches_keys (collect h'' g))"
proof -
  have live: "\<forall>x\<in>set (caches_keys g). heap g x \<noteq> None" by (simp add: caches_keys_def)
  have 1: "clear_all_caches g =
     Inr (g\<lparr>heap := \<lambda>h. if h \<in> set (caches_keys g) then map_option cache_clear (heap g h)
                          else heap g h\<rparr>)"
    unfolding clear_all_caches_def by (rule clear_each_live [OF live])
  have 2: "heap (projr (clear_all_caches g)) h = Some (cache_clear c) \<and>
      cache_info (cache_clear c) = (0, 0, maxsize (lru c), 0) \<and>
      cache_dict (lru (cache_clear c)) = []"
    if "h \<in> fst ` set (caches g)" and "heap g h = Some c"
  proof -
    from that have "h \<in> set (caches_keys g)" by (auto simp: caches_keys_def)
    with 1 that have "heap (projr (clear_all_caches g)) h = Some (cache_clear c)" by simp
    moreover have "cache_info (cache_clear c) = (0, 0, maxsize (lru c), 0)"
      by (simp add: cache_info_def lru_cache_info_def cache_clear_def lru_cache_clear_def)
    ultimately show ?thesis using cache_clear_fields [of c] by simp
  qed
  have 3: "heap (projr (clear_all_caches g)) h' = None" if "heap g h' = None"
    using 1 that by simp
  have 4: "heap (collect h'' g) h'' = None" "h'' \<notin> set (caches_keys (collect h'' g))"
    by (simp_all add: collect_def caches_keys_def)
  from 1 2 3 4 cleared_call [of py cfg c a k w] show ?thesis by blast
qed

theorem clear_all_caches_clears_live_witness:
  "cache_info (the (heap jax2 0)) = (0, 2, Some 2, 2) \<and>
   caches_keys (collect 1 jax2) = [0] \<and>
   0 \<in> fst ` set (caches (collect 1 jax2)) \<and>
   heap (collect 1 jax2) 1 = None \<and>
   map_option cache_info (heap (projr (clear_all_caches (collect 1 jax2))) 0) =
     Some (0, 0, Some 2, 0) \<and>
   heap (projr (clear_all_caches (collect 1 jax2))) 1 = None \<and>
   wrapper cpython cfg0
       (cache_clear (fst (run_calls cpython [call_A, call_B] cache2 world0))) [PyInt 1] [] world0 =
     (Inr 1,
      cache2\<lparr>lru := \<lparr>cache_dict = [(cache_key cpython cache2 call_A, 1)],
                       hits = 0, misses = 1, full = False, maxsize = Some 2\<rparr>\<rparr>,
      \<lparr>env = 1, invoked = [([PyInt 1], [])]\<rparr>)"
proof -
  let ?c = "fst (run_calls cpython [call_A, call_B] cache2 world0)"
  note t = clear_all_caches_clears_live [where g = "collect 1 jax2" and h = 0 and c = ?c
      and h' = 1 and h'' = 1 and py = cpython and cfg = cfg0 and a = "[PyInt 1]" and k = "[]"
      and w = world0]
  have reg: "0 \<in> fst ` set (caches (collect 1 jax2))" by (simp add: collect_def jax2_def)
  have live: "heap (collect 1 jax2) 0 = Some ?c" by (simp add: collect_def jax2_def)
  have dead: "heap (collect 1 jax2) 1 = None" by (simp add: collect_def)
  have keys: "caches_keys (collect 1 jax2) = [0]"
    by (simp add: caches_keys_def collect_def jax2_def)
  have info: "cache_info (the (heap jax2 0)) = (0, 2, Some 2, 2)"
    by (simp add: jax2_def run_simps)
  note r = t [THEN conjunct2, THEN conjunct1, rule_format, OF reg live]
  note d = t [THEN conjunct2, THEN conjunct2, THEN conjunct1, rule_format, OF dead]
  have i: "cache_info (cache_clear ?c) = (0, 0, Some 2, 0)"
    by (simp add: cache_info_def lru_cache_info_def cache_clear_def lru_cache_clear_def run_simps)
  from r i have c1: "map_option cache_info (heap (projr (clear_all_caches (collect 1 jax2))) 0) =
     Some (0, 0, Some 2, 0)"
    by simp
  have c2: "wrapper cpython cfg0 (cache_clear ?c) [PyInt 1] [] world0 =
     (Inr 1,
      cache2\<lparr>lru := \<lparr>cache_dict = [(cache_key cpython cache2 call_A, 1)],
                       hits = 0, misses = 1, full = False, maxsize = Some 2\<rparr>\<rparr>,
      \<lparr>env = 1, invoked = [([PyInt 1], [])]\<rparr>)"
    by (simp add: cache_clear_def lru_cache_clear_def run_simps)
  from info keys reg dead c1 d c2 show ?thesis by simp
qed

end
